theory Spec2Isabelle
  imports Complex_Main
begin

text \<open>
  videos.py reads a dataset of videos, endpoints, caches and requests, builds a
  mixed-integer program that places videos in caches so as to maximise the latency
  saved, hands it to an external solver and writes the placement of the solution to
  videos.out. This theory embeds the script: read_input on the lines of the file, the
  model built by solve_videos as a list of variables, an objective and a list of
  linear constraints, generate_output as the text it writes, and the script as a whole
  as the events of a run and its exit code. The solver is a parameter; of a solution
  only its contract is used: binary values that satisfy every constraint.
\<close>

section \<open>Python values used by videos.py\<close>

text \<open>
  The exceptions the script can raise: \<open>lines[i]\<close>, \<open>video_sizes[v]\<close> and
  \<open>endpoints[e_id]\<close> raise IndexError out of range; \<open>int\<close> on a token that is no
  integer and a tuple unpacking of the wrong length raise ValueError; \<open>open\<close> on a path
  that names no file raises OSError (FileNotFoundError).
\<close>

datatype py_error = IndexError | ValueError | OSError

text \<open>Python list indexing \<open>xs[i]\<close>: a negative index counts from the end.\<close>

definition py_index :: "'a list \<Rightarrow> int \<Rightarrow> py_error + 'a" where
  "py_index xs i =
     (if 0 \<le> i \<and> i < int (length xs) then Inr (xs ! nat i)
      else if i < 0 \<and> - int (length xs) \<le> i then Inr (xs ! nat (int (length xs) + i))
      else Inl IndexError)"

text \<open>\<open>range(n)\<close> for a Python int: empty when \<open>n \<le> 0\<close>.\<close>

definition py_range :: "int \<Rightarrow> int list" where
  "py_range n = map int [0..<nat n]"

text \<open>
  \<open>d[k] = v\<close> on a dict, kept as an association list in insertion order: an existing
  key keeps its place and takes the new value, a new key goes to the end.
\<close>

fun dict_set :: "('k \<times> 'v) list \<Rightarrow> 'k \<Rightarrow> 'v \<Rightarrow> ('k \<times> 'v) list" where
  "dict_set [] k v = [(k, v)]"
| "dict_set ((k', v') # d) k v =
     (if k' = k then (k, v) # d else (k', v') # dict_set d k v)"

section \<open>The dataset (what read_input returns)\<close>

record endpoint_data =
  id_e :: int
  Ld :: int
  connections :: "(int \<times> int) list"

record request_data =
  id_r :: int
  video :: int
  endpoint :: int
  count :: int

record dataset =
  ds_V :: int
  ds_E :: int
  ds_R :: int
  ds_C :: int
  ds_X :: int
  video_sizes :: "int list"
  endpoints :: "endpoint_data list"
  requests :: "request_data list"

section \<open>read_input\<close>

text \<open>
  The file is given as the list of its lines (\<open>f.read().splitlines()\<close>), each an ASCII
  string. \<open>line.split()\<close> cuts a line at runs of white space; \<open>int(token)\<close> reads an
  optional sign and decimal digits, where single underscores may stand between digits,
  and raises ValueError on anything else.
\<close>

definition is_space :: "char \<Rightarrow> bool" where
  "is_space ch \<longleftrightarrow>
     ch \<in> set [CHR 0x09, CHR 0x0A, CHR 0x0B, CHR 0x0C, CHR 0x0D,
                CHR 0x1C, CHR 0x1D, CHR 0x1E, CHR 0x1F, CHR 0x20]"

fun split_ws :: "string \<Rightarrow> string \<Rightarrow> string list" where
  "split_ws cur [] = (if cur = [] then [] else [cur])"
| "split_ws cur (ch # rest) =
     (if is_space ch
      then (if cur = [] then split_ws [] rest else cur # split_ws [] rest)
      else split_ws (cur @ [ch]) rest)"

definition py_split :: "string \<Rightarrow> string list" where
  "py_split line = split_ws [] line"

definition is_digit :: "char \<Rightarrow> bool" where
  "is_digit ch \<longleftrightarrow> 48 \<le> (of_char ch :: nat) \<and> (of_char ch :: nat) \<le> 57"

definition digit_val :: "char \<Rightarrow> nat" where
  "digit_val ch = of_char ch - 48"

fun py_digits :: "nat \<Rightarrow> string \<Rightarrow> nat option" where
  "py_digits acc [] = None"
| "py_digits acc [ch] = (if is_digit ch then Some (10 * acc + digit_val ch) else None)"
| "py_digits acc (ch # nxt # rest) =
     (if is_digit ch
      then (if nxt = CHR ''_''
            then py_digits (10 * acc + digit_val ch) rest
            else py_digits (10 * acc + digit_val ch) (nxt # rest))
      else None)"

definition py_int :: "string \<Rightarrow> py_error + int" where
  "py_int tok =
     (case tok of
        [] \<Rightarrow> Inl ValueError
      | ch # rest \<Rightarrow>
          (if ch = CHR ''-''
           then (case py_digits 0 rest of None \<Rightarrow> Inl ValueError | Some n \<Rightarrow> Inr (- int n))
           else if ch = CHR ''+''
           then (case py_digits 0 rest of None \<Rightarrow> Inl ValueError | Some n \<Rightarrow> Inr (int n))
           else (case py_digits 0 tok of None \<Rightarrow> Inl ValueError | Some n \<Rightarrow> Inr (int n))))"

text \<open>\<open>map(int, tokens)\<close>, consumed to the end.\<close>

fun map_int :: "string list \<Rightarrow> py_error + int list" where
  "map_int [] = Inr []"
| "map_int (tok # toks) =
     (case py_int tok of
        Inl e \<Rightarrow> Inl e
      | Inr i \<Rightarrow> (case map_int toks of Inl e \<Rightarrow> Inl e | Inr is \<Rightarrow> Inr (i # is)))"

text \<open>
  \<open>lines[i]\<close> for the line counter, which starts at 0 and only grows, and
  \<open>map(int, lines[i].split())\<close>.
\<close>

definition int_fields :: "string list \<Rightarrow> nat \<Rightarrow> py_error + int list" where
  "int_fields lines i =
     (if i < length lines then map_int (py_split (lines ! i)) else Inl IndexError)"

text \<open>
  Tuple unpacking \<open>a, b = map(int, ...)\<close>: any number of values but the expected one
  raises ValueError, as does a token that is no integer.
\<close>

fun unpack2 :: "int list \<Rightarrow> py_error + int \<times> int" where
  "unpack2 [a, b] = Inr (a, b)"
| "unpack2 _ = Inl ValueError"

fun unpack3 :: "int list \<Rightarrow> py_error + int \<times> int \<times> int" where
  "unpack3 [a, b, c] = Inr (a, b, c)"
| "unpack3 _ = Inl ValueError"

fun unpack5 :: "int list \<Rightarrow> py_error + int \<times> int \<times> int \<times> int \<times> int" where
  "unpack5 [a, b, c, d, e] = Inr (a, b, c, d, e)"
| "unpack5 _ = Inl ValueError"

definition read2 :: "string list \<Rightarrow> nat \<Rightarrow> py_error + int \<times> int" where
  "read2 lines i = (case int_fields lines i of Inl e \<Rightarrow> Inl e | Inr xs \<Rightarrow> unpack2 xs)"

definition read3 :: "string list \<Rightarrow> nat \<Rightarrow> py_error + int \<times> int \<times> int" where
  "read3 lines i = (case int_fields lines i of Inl e \<Rightarrow> Inl e | Inr xs \<Rightarrow> unpack3 xs)"

definition read5 :: "string list \<Rightarrow> nat \<Rightarrow> py_error + int \<times> int \<times> int \<times> int \<times> int" where
  "read5 lines i = (case int_fields lines i of Inl e \<Rightarrow> Inl e | Inr xs \<Rightarrow> unpack5 xs)"

text \<open>
  \<^verbatim>\<open>for _ in range(K):
      c_id, latency = map(int, lines[current_line_idx].split())
      cache_connections[c_id] = latency
      current_line_idx += 1\<close>
\<close>

fun conn_loop ::
  "string list \<Rightarrow> nat \<Rightarrow> nat \<Rightarrow> (int \<times> int) list \<Rightarrow> py_error + (int \<times> int) list \<times> nat" where
  "conn_loop lines 0 idx cache_connections = Inr (cache_connections, idx)"
| "conn_loop lines (Suc k) idx cache_connections =
     (case read2 lines idx of
        Inl e \<Rightarrow> Inl e
      | Inr (c_id, latency) \<Rightarrow>
          conn_loop lines k (Suc idx) (dict_set cache_connections c_id latency))"

text \<open>
  \<^verbatim>\<open>for idx_e in range(E):
      Ld, K = map(int, lines[current_line_idx].split())
      current_line_idx += 1
      ... the K connections ...
      endpoints.append({'id': idx_e, 'Ld': Ld, 'connections': cache_connections})\<close>
\<close>

fun endpoint_loop ::
  "string list \<Rightarrow> int list \<Rightarrow> nat \<Rightarrow> endpoint_data list
     \<Rightarrow> py_error + endpoint_data list \<times> nat" where
  "endpoint_loop lines [] idx eps = Inr (eps, idx)"
| "endpoint_loop lines (idx_e # rest) idx eps =
     (case read2 lines idx of
        Inl e \<Rightarrow> Inl e
      | Inr (ld, k) \<Rightarrow>
          (case conn_loop lines (nat k) (Suc idx) [] of
             Inl e \<Rightarrow> Inl e
           | Inr (cache_connections, idx') \<Rightarrow>
               endpoint_loop lines rest idx'
                 (eps @ [\<lparr>id_e = idx_e, Ld = ld, connections = cache_connections\<rparr>])))"

text \<open>
  \<^verbatim>\<open>for idx_r in range(R):
      v_id, e_id, n_count = map(int, lines[current_line_idx].split())
      requests.append({'id': idx_r, 'video': v_id, 'endpoint': e_id, 'count': n_count})
      current_line_idx += 1\<close>
\<close>

fun request_loop ::
  "string list \<Rightarrow> int list \<Rightarrow> nat \<Rightarrow> request_data list
     \<Rightarrow> py_error + request_data list \<times> nat" where
  "request_loop lines [] idx rqs = Inr (rqs, idx)"
| "request_loop lines (idx_r # rest) idx rqs =
     (case read3 lines idx of
        Inl e \<Rightarrow> Inl e
      | Inr (v_id, e_id, n_count) \<Rightarrow>
          request_loop lines rest (Suc idx)
            (rqs @ [\<lparr>id_r = idx_r, video = v_id, endpoint = e_id, count = n_count\<rparr>]))"

text \<open>
  read_input, with the line counter it ends on (the number of lines it has read); the
  function of the script returns the dataset alone.
\<close>

definition read_input_at :: "string list \<Rightarrow> py_error + dataset \<times> nat" where
  "read_input_at lines =
     (case read5 lines 0 of
        Inl e \<Rightarrow> Inl e
      | Inr (v, e, r, c, x) \<Rightarrow>
          (case int_fields lines 1 of
             Inl err \<Rightarrow> Inl err
           | Inr sizes \<Rightarrow>
               (case endpoint_loop lines (py_range e) 2 [] of
                  Inl err \<Rightarrow> Inl err
                | Inr (eps, idx) \<Rightarrow>
                    (case request_loop lines (py_range r) idx [] of
                       Inl err \<Rightarrow> Inl err
                     | Inr (rqs, idx') \<Rightarrow>
                         Inr (\<lparr>ds_V = v, ds_E = e, ds_R = r, ds_C = c, ds_X = x,
                               video_sizes = sizes, endpoints = eps, requests = rqs\<rparr>,
                              idx')))))"

definition read_input :: "string list \<Rightarrow> py_error + dataset" where
  "read_input lines =
     (case read_input_at lines of Inl e \<Rightarrow> Inl e | Inr (ds, idx) \<Rightarrow> Inr ds)"

section \<open>The optimisation model handed to the solver\<close>

text \<open>
  A decision variable is its position in the model's variable list (addVar returns a
  fresh one each time). Names stand for the formatted strings \<open>cached_c_v\<close>,
  \<open>served_r_c\<close>, \<open>link_r_c\<close>, \<open>cap_c\<close> and \<open>assign_r\<close>; the constraint added without
  a name has \<open>no_name\<close>.
\<close>

datatype vname = cached_name int int | served_name int int

datatype cname = link_name int int | cap_name int | assign_name int | no_name

datatype sense = LE | EQ

type_synonym var = nat

type_synonym linexpr = "(int \<times> var) list"

record constr =
  lhs :: linexpr
  csense :: sense
  rhs :: linexpr
  rhs_const :: int
  cname :: cname

record model =
  vars :: "vname list"
  objective :: linexpr
  constrs :: "constr list"

definition new_model :: model where
  "new_model = \<lparr>vars = [], objective = [], constrs = []\<rparr>"

definition addVar :: "vname \<Rightarrow> model \<Rightarrow> var \<times> model" where
  "addVar n m = (length (vars m), m\<lparr>vars := vars m @ [n]\<rparr>)"

definition addConstr :: "constr \<Rightarrow> model \<Rightarrow> model" where
  "addConstr k m = m\<lparr>constrs := constrs m @ [k]\<rparr>"

definition setObjective :: "linexpr \<Rightarrow> model \<Rightarrow> model" where
  "setObjective e m = m\<lparr>objective := e\<rparr>"

type_synonym vardict = "int \<times> int \<Rightarrow> var option"

section \<open>solve_videos: building the model\<close>

subsection \<open>The cached variables\<close>

text \<open>
  \<^verbatim>\<open>for c in range(C):
      for v in range(V):
          if video_sizes[v] <= X:
              cached[c, v] = m.addVar(...)\<close>
\<close>

fun cached_loop_v ::
  "int list \<Rightarrow> int \<Rightarrow> int \<Rightarrow> int list \<Rightarrow> model \<times> vardict \<Rightarrow> py_error + model \<times> vardict" where
  "cached_loop_v sizes X c [] st = Inr st"
| "cached_loop_v sizes X c (v # vs) (m, cached) =
     (case py_index sizes v of
        Inl e \<Rightarrow> Inl e
      | Inr sz \<Rightarrow>
          if sz \<le> X
          then (case addVar (cached_name c v) m of
                  (y, m') \<Rightarrow> cached_loop_v sizes X c vs (m', cached((c, v) \<mapsto> y)))
          else cached_loop_v sizes X c vs (m, cached))"

fun cached_loop_c ::
  "int list \<Rightarrow> int \<Rightarrow> int \<Rightarrow> int list \<Rightarrow> model \<times> vardict \<Rightarrow> py_error + model \<times> vardict" where
  "cached_loop_c sizes X V [] st = Inr st"
| "cached_loop_c sizes X V (c # cs) st =
     (case cached_loop_v sizes X c (py_range V) st of
        Inl e \<Rightarrow> Inl e
      | Inr st' \<Rightarrow> cached_loop_c sizes X V cs st')"

subsection \<open>The served variables, the objective and the link constraints\<close>

text \<open>
  \<^verbatim>\<open>for c_id, latency in endpoint_data['connections'].items():
      if latency < Ld:
          saving = (Ld - latency) * count
          served[r_id, c_id] = m.addVar(...)
          obj_expr += saving * served[r_id, c_id]
          if (c_id, v_id) in cached:
              m.addConstr(served[r_id, c_id] <= cached[c_id, v_id], name=link_r_c)
          else:
              m.addConstr(served[r_id, c_id] == 0)\<close>
\<close>

definition link_constr :: "int \<Rightarrow> int \<Rightarrow> var \<Rightarrow> var \<Rightarrow> constr" where
  "link_constr r c s y =
     \<lparr>lhs = [(1, s)], csense = LE, rhs = [(1, y)], rhs_const = 0, cname = link_name r c\<rparr>"

definition zero_constr :: "var \<Rightarrow> constr" where
  "zero_constr s = \<lparr>lhs = [(1, s)], csense = EQ, rhs = [], rhs_const = 0, cname = no_name\<rparr>"

definition served_body ::
  "vardict \<Rightarrow> int \<Rightarrow> int \<Rightarrow> int \<Rightarrow> int \<Rightarrow> int \<Rightarrow> int
     \<Rightarrow> model \<times> vardict \<times> linexpr \<Rightarrow> model \<times> vardict \<times> linexpr" where
  "served_body cached r v cnt ld c latency st =
     (case st of
        (m, served, obj_expr) \<Rightarrow>
          (let saving = (ld - latency) * cnt in
           case addVar (served_name r c) m of
             (s, m1) \<Rightarrow>
               (case cached (c, v) of
                  Some y \<Rightarrow> addConstr (link_constr r c s y) m1
                | None \<Rightarrow> addConstr (zero_constr s) m1,
                served((r, c) \<mapsto> s),
                obj_expr @ [(saving, s)])))"

fun served_loop_c ::
  "vardict \<Rightarrow> int \<Rightarrow> int \<Rightarrow> int \<Rightarrow> int \<Rightarrow> (int \<times> int) list
     \<Rightarrow> model \<times> vardict \<times> linexpr \<Rightarrow> model \<times> vardict \<times> linexpr" where
  "served_loop_c cached r v cnt ld [] st = st"
| "served_loop_c cached r v cnt ld ((c, latency) # rest) st =
     (if latency < ld
      then served_loop_c cached r v cnt ld rest (served_body cached r v cnt ld c latency st)
      else served_loop_c cached r v cnt ld rest st)"

fun served_loop ::
  "endpoint_data list \<Rightarrow> vardict \<Rightarrow> request_data list
     \<Rightarrow> model \<times> vardict \<times> linexpr \<Rightarrow> py_error + model \<times> vardict \<times> linexpr" where
  "served_loop eps cached [] st = Inr st"
| "served_loop eps cached (r_data # rest) st =
     (case py_index eps (endpoint r_data) of
        Inl e \<Rightarrow> Inl e
      | Inr endpoint_data \<Rightarrow>
          served_loop eps cached rest
            (served_loop_c cached (id_r r_data) (video r_data) (count r_data)
               (Ld endpoint_data) (connections endpoint_data) st))"

subsection \<open>The capacity constraints\<close>

text \<open>
  \<^verbatim>\<open>for c in range(C):
      m.addConstr(quicksum(video_sizes[v] * cached[c, v]
                           for v in range(V) if (c, v) in cached) <= X, name=cap_c)\<close>
\<close>

fun cap_terms :: "int list \<Rightarrow> vardict \<Rightarrow> int \<Rightarrow> int list \<Rightarrow> py_error + linexpr" where
  "cap_terms sizes cached c [] = Inr []"
| "cap_terms sizes cached c (v # vs) =
     (case cached (c, v) of
        None \<Rightarrow> cap_terms sizes cached c vs
      | Some y \<Rightarrow>
          (case py_index sizes v of
             Inl e \<Rightarrow> Inl e
           | Inr sz \<Rightarrow>
               (case cap_terms sizes cached c vs of
                  Inl e \<Rightarrow> Inl e
                | Inr ts \<Rightarrow> Inr ((sz, y) # ts))))"

definition cap_constr :: "int \<Rightarrow> linexpr \<Rightarrow> int \<Rightarrow> constr" where
  "cap_constr c ts X =
     \<lparr>lhs = ts, csense = LE, rhs = [], rhs_const = X, cname = cap_name c\<rparr>"

fun cap_loop ::
  "int list \<Rightarrow> int \<Rightarrow> int \<Rightarrow> vardict \<Rightarrow> int list \<Rightarrow> model \<Rightarrow> py_error + model" where
  "cap_loop sizes X V cached [] m = Inr m"
| "cap_loop sizes X V cached (c # cs) m =
     (case cap_terms sizes cached c (py_range V) of
        Inl e \<Rightarrow> Inl e
      | Inr ts \<Rightarrow> cap_loop sizes X V cached cs (addConstr (cap_constr c ts X) m))"

subsection \<open>The assignment constraints\<close>

text \<open>
  \<^verbatim>\<open>for r_data in requests:
      connected_caches = endpoints[e_id]['connections'].keys()
      vars_for_req = [served[r_id, c] for c in connected_caches if (r_id, c) in served]
      if vars_for_req:
          m.addConstr(quicksum(vars_for_req) <= 1, name=assign_r)\<close>
\<close>

definition vars_for_req :: "vardict \<Rightarrow> int \<Rightarrow> int list \<Rightarrow> var list" where
  "vars_for_req served r connected_caches =
     List.map_filter (\<lambda>c. served (r, c)) connected_caches"

definition assign_constr :: "int \<Rightarrow> var list \<Rightarrow> constr" where
  "assign_constr r xs =
     \<lparr>lhs = map (\<lambda>x. (1, x)) xs, csense = LE, rhs = [], rhs_const = 1,
      cname = assign_name r\<rparr>"

fun assign_loop ::
  "endpoint_data list \<Rightarrow> vardict \<Rightarrow> request_data list \<Rightarrow> model \<Rightarrow> py_error + model" where
  "assign_loop eps served [] m = Inr m"
| "assign_loop eps served (r_data # rest) m =
     (case py_index eps (endpoint r_data) of
        Inl e \<Rightarrow> Inl e
      | Inr endpoint_data \<Rightarrow>
          (let xs = vars_for_req served (id_r r_data) (map fst (connections endpoint_data))
           in if xs \<noteq> []
              then assign_loop eps served rest (addConstr (assign_constr (id_r r_data) xs) m)
              else assign_loop eps served rest m))"

subsection \<open>The whole model\<close>

text \<open>
  Lines 54 to 110 of solve_videos: the variables, the objective, the link and the
  capacity constraints.
\<close>

definition build_caps :: "dataset \<Rightarrow> py_error + model \<times> vardict \<times> vardict" where
  "build_caps ds =
     (case cached_loop_c (video_sizes ds) (ds_X ds) (ds_V ds) (py_range (ds_C ds))
             (new_model, Map.empty) of
        Inl e \<Rightarrow> Inl e
      | Inr (m1, cached) \<Rightarrow>
          (case served_loop (endpoints ds) cached (requests ds) (m1, Map.empty, []) of
             Inl e \<Rightarrow> Inl e
           | Inr (m2, served, obj_expr) \<Rightarrow>
               (case cap_loop (video_sizes ds) (ds_X ds) (ds_V ds) cached (py_range (ds_C ds))
                       (setObjective obj_expr m2) of
                  Inl e \<Rightarrow> Inl e
                | Inr m3 \<Rightarrow> Inr (m3, cached, served))))"

text \<open>
  Lines 54 to 124: with the assignment constraints, the model that is written to
  videos.mps and optimised, and the two dictionaries of variables.
\<close>

definition build_model :: "dataset \<Rightarrow> py_error + model \<times> vardict \<times> vardict" where
  "build_model ds =
     (case build_caps ds of
        Inl e \<Rightarrow> Inl e
      | Inr (m3, cached, served) \<Rightarrow>
          (case assign_loop (endpoints ds) served (requests ds) m3 of
             Inl e \<Rightarrow> Inl e
           | Inr m4 \<Rightarrow> Inr (m4, cached, served)))"

section \<open>What the solver returns\<close>

text \<open>
  The solver is external. A solution gives every variable a value (the attribute
  \<open>.X\<close>); the solver's contract is that a returned solution gives every binary variable
  0 or 1 and satisfies every constraint of the model.
\<close>

type_synonym solution = "var \<Rightarrow> real"

definition eval_expr :: "solution \<Rightarrow> linexpr \<Rightarrow> real" where
  "eval_expr sol e = sum_list (map (\<lambda>(k, x). real_of_int k * sol x) e)"

definition satisfies :: "solution \<Rightarrow> constr \<Rightarrow> bool" where
  "satisfies sol k =
     (case csense k of
        LE \<Rightarrow> eval_expr sol (lhs k) \<le> eval_expr sol (rhs k) + real_of_int (rhs_const k)
      | EQ \<Rightarrow> eval_expr sol (lhs k) = eval_expr sol (rhs k) + real_of_int (rhs_const k))"

definition feasible :: "model \<Rightarrow> solution \<Rightarrow> bool" where
  "feasible m sol \<longleftrightarrow>
     list_all (\<lambda>x. sol x = 0 \<or> sol x = 1) [0..<length (vars m)] \<and>
     list_all (satisfies sol) (constrs m)"

section \<open>generate_output\<close>

text \<open>\<open>str\<close> of a Python int, in decimal.\<close>

definition digit_char :: "nat \<Rightarrow> char" where
  "digit_char d = char_of (48 + d)"

fun str_nat :: "nat \<Rightarrow> string" where
  "str_nat n = (if n < 10 then [digit_char n] else str_nat (n div 10) @ [digit_char (n mod 10)])"

declare str_nat.simps [simp del]

definition str_int :: "int \<Rightarrow> string" where
  "str_int i = (if i < 0 then CHR ''-'' # str_nat (nat (- i)) else str_nat (nat i))"

text \<open>\<open>sep.join(xs)\<close>.\<close>

fun join :: "string \<Rightarrow> string list \<Rightarrow> string" where
  "join sep [] = []"
| "join sep [x] = x"
| "join sep (x # y # ys) = x @ sep @ join sep (y # ys)"

text \<open>
  \<^verbatim>\<open>for v in range(V):
      if (c, v) in cached_vars:
          if cached_vars[c, v].X > 0.5:
              videos_in_cache.append(str(v))\<close>
\<close>

fun videos_loop :: "vardict \<Rightarrow> solution \<Rightarrow> int \<Rightarrow> int list \<Rightarrow> string list \<Rightarrow> string list" where
  "videos_loop cached_vars sol c [] videos_in_cache = videos_in_cache"
| "videos_loop cached_vars sol c (v # vs) videos_in_cache =
     (case cached_vars (c, v) of
        None \<Rightarrow> videos_loop cached_vars sol c vs videos_in_cache
      | Some y \<Rightarrow>
          if sol y > 0.5
          then videos_loop cached_vars sol c vs (videos_in_cache @ [str_int v])
          else videos_loop cached_vars sol c vs videos_in_cache)"

fun content_loop ::
  "int \<Rightarrow> vardict \<Rightarrow> solution \<Rightarrow> int list \<Rightarrow> (int \<times> string list) list
     \<Rightarrow> (int \<times> string list) list" where
  "content_loop V cached_vars sol [] cache_content = cache_content"
| "content_loop V cached_vars sol (c # cs) cache_content =
     (let videos_in_cache = videos_loop cached_vars sol c (py_range V) []
      in if videos_in_cache \<noteq> []
         then content_loop V cached_vars sol cs (dict_set cache_content c videos_in_cache)
         else content_loop V cached_vars sol cs cache_content)"

definition cache_content :: "int \<Rightarrow> int \<Rightarrow> vardict \<Rightarrow> solution \<Rightarrow> (int \<times> string list) list" where
  "cache_content C V cached_vars sol = content_loop V cached_vars sol (py_range C) []"

definition output_line :: "int \<times> string list \<Rightarrow> string" where
  "output_line e = str_int (fst e) @ '' '' @ join '' '' (snd e) @ [CHR 0x0A]"

text \<open>The text written to videos.out.\<close>

definition generate_output :: "int \<Rightarrow> int \<Rightarrow> vardict \<Rightarrow> solution \<Rightarrow> string" where
  "generate_output C V cached_vars sol =
     (let cc = cache_content C V cached_vars sol
      in str_int (int (length cc)) @ [CHR 0x0A] @ concat (map output_line cc))"

section \<open>The script: files, messages and the exit code\<close>

text \<open>
  What a run does to the outside is a list of events: a message printed, a file opened
  for reading, a file written. The file system gives the lines of the files that exist;
  the solver is a function from the model to the solution it returns, if any
  (\<open>m.SolCount > 0\<close>). Writing a file and running the solver are taken not to raise.
\<close>

datatype message =
    Usage
  | File_not_found string
  | Reading_dataset string
  | Dataset_loaded int int int int int
  | Adding_assignment_constraints
  | Creating_mps
  | Solving_model
  | Optimal_solution real
  | No_solution_found
  | Creating_out
  | Out_created

datatype content = Mps model | Text string

datatype event = Print message | Open_read string | Write_file string content

type_synonym files = "string \<Rightarrow> string list option"

type_synonym solver = "model \<Rightarrow> solution option"

text \<open>read_input with its messages and the file it opens.\<close>

definition read_input_io :: "files \<Rightarrow> string \<Rightarrow> event list \<times> (py_error + dataset)" where
  "read_input_io fs filepath =
     (case fs filepath of
        None \<Rightarrow> ([Print (Reading_dataset filepath), Open_read filepath], Inl OSError)
      | Some lines \<Rightarrow>
          (case read_input lines of
             Inl e \<Rightarrow> ([Print (Reading_dataset filepath), Open_read filepath], Inl e)
           | Inr ds \<Rightarrow>
               ([Print (Reading_dataset filepath), Open_read filepath,
                 Print (Dataset_loaded (ds_V ds) (ds_E ds) (ds_R ds) (ds_C ds) (ds_X ds))],
                Inr ds)))"

text \<open>
  solve_videos: the events of the call and the exception it ends with, if any. The
  objective value printed is that of the returned solution.
\<close>

definition solve_videos :: "files \<Rightarrow> solver \<Rightarrow> string \<Rightarrow> event list \<times> py_error option" where
  "solve_videos fs optimize filepath =
     (case read_input_io fs filepath of
        (ev, Inl e) \<Rightarrow> (ev, Some e)
      | (ev, Inr ds) \<Rightarrow>
          (case build_caps ds of
             Inl e \<Rightarrow> (ev, Some e)
           | Inr (m3, cached, served) \<Rightarrow>
               (case assign_loop (endpoints ds) served (requests ds) m3 of
                  Inl e \<Rightarrow> (ev @ [Print Adding_assignment_constraints], Some e)
                | Inr m \<Rightarrow>
                    (case optimize m of
                       Some sol \<Rightarrow>
                         (ev @ [Print Adding_assignment_constraints, Print Creating_mps,
                                Write_file ''videos.mps'' (Mps m), Print Solving_model,
                                Print (Optimal_solution (eval_expr sol (objective m))),
                                Print Creating_out,
                                Write_file ''videos.out''
                                  (Text (generate_output (ds_C ds) (ds_V ds) cached sol)),
                                Print Out_created],
                          None)
                     | None \<Rightarrow>
                         (ev @ [Print Adding_assignment_constraints, Print Creating_mps,
                                Write_file ''videos.mps'' (Mps m), Print Solving_model,
                                Print No_solution_found],
                          None)))))"

text \<open>
  The script run as a program: the events and the exit code. An exception that
  nothing catches ends the process with exit code 1.
\<close>

definition main :: "string list \<Rightarrow> files \<Rightarrow> solver \<Rightarrow> event list \<times> int" where
  "main argv fs optimize =
     (if length argv < 2 then ([Print Usage], 1)
      else (let dataset_path = argv ! 1
            in if fs dataset_path = None then ([Print (File_not_found dataset_path)], 1)
               else (case solve_videos fs optimize dataset_path of
                       (ev, None) \<Rightarrow> (ev, 0)
                     | (ev, Some e) \<Rightarrow> (ev, 1))))"

section \<open>Predicates used to state and prove the properties\<close>

text \<open>A model extends another: variables and constraints are only ever appended.\<close>

definition ext :: "model \<Rightarrow> model \<Rightarrow> bool" where
  "ext m m' \<longleftrightarrow> (\<exists>vs. vars m' = vars m @ vs) \<and> (\<exists>ks. constrs m' = constrs m @ ks)"

text \<open>
  Every entry of a variable dictionary is a variable of the model, created under the
  name of its key.
\<close>

definition var_inv :: "(int \<Rightarrow> int \<Rightarrow> vname) \<Rightarrow> model \<Rightarrow> vardict \<Rightarrow> bool" where
  "var_inv nm m d \<longleftrightarrow> (\<forall>a b y. d (a, b) = Some y \<longrightarrow> y < length (vars m) \<and> vars m ! y = nm a b)"

text \<open>
  What the loop over the requests leaves behind for an entry \<open>served[r, c] = s\<close> made
  for request \<open>rq\<close>: the connection it came from, its objective term and its link
  constraint.
\<close>

definition served_entry ::
  "endpoint_data list \<Rightarrow> vardict \<Rightarrow> model \<Rightarrow> linexpr \<Rightarrow> request_data \<Rightarrow> int \<Rightarrow> var \<Rightarrow> bool" where
  "served_entry eps cached m obj rq c s \<longleftrightarrow>
     (\<exists>ep latency. py_index eps (endpoint rq) = Inr ep \<and> (c, latency) \<in> set (connections ep) \<and>
        latency < Ld ep \<and> ((Ld ep - latency) * count rq, s) \<in> set obj \<and>
        (case cached (c, video rq) of
           Some y \<Rightarrow> link_constr (id_r rq) c s y \<in> set (constrs m)
         | None \<Rightarrow> zero_constr s \<in> set (constrs m)))"

definition served_inv ::
  "endpoint_data list \<Rightarrow> vardict \<Rightarrow> request_data list \<Rightarrow> model \<times> vardict \<times> linexpr \<Rightarrow> bool" where
  "served_inv eps cached rqs st \<longleftrightarrow>
     (case st of
        (m, served, obj) \<Rightarrow>
          var_inv served_name m served \<and>
          (\<forall>x\<in>snd ` set obj. x < length (vars m)) \<and> distinct (map snd obj) \<and>
          (\<forall>k\<in>set (constrs m). \<forall>r. cname k \<noteq> assign_name r) \<and>
          (\<forall>r c. served_name r c \<in> set (vars m) \<longrightarrow> served (r, c) \<noteq> None) \<and>
          (\<forall>r c s. served (r, c) = Some s \<longrightarrow>
             (\<exists>rq\<in>set rqs. id_r rq = r \<and> served_entry eps cached m obj rq c s)))"

definition ext_st :: "model \<Rightarrow> model \<times> vardict \<times> linexpr \<Rightarrow> bool" where
  "ext_st m0 st \<longleftrightarrow> ext m0 (fst st) \<and> objective (fst st) = objective m0"

text \<open>
  The left-hand side of the capacity constraint of cache \<open>c\<close> in the words of the
  specification: the sum of \<open>size(v) * cached[c, v]\<close> over the videos \<open>v\<close> that have a
  variable for that cache.
\<close>

definition capacity_lhs :: "int list \<Rightarrow> vardict \<Rightarrow> int \<Rightarrow> int list \<Rightarrow> linexpr" where
  "capacity_lhs sizes cached c vs =
     List.map_filter (\<lambda>v. map_option (\<lambda>y. (sizes ! nat v, y)) (cached (c, v))) vs"

text \<open>
  The videos that generate_output lists for cache \<open>c\<close>: those with a variable whose
  solved value exceeds 0.5, in the order of \<open>vs\<close>; and the placement, the caches with
  at least one such video.
\<close>

definition stored_videos :: "vardict \<Rightarrow> solution \<Rightarrow> int \<Rightarrow> int list \<Rightarrow> int list" where
  "stored_videos cached_vars sol c vs =
     filter (\<lambda>v. case cached_vars (c, v) of None \<Rightarrow> False | Some y \<Rightarrow> sol y > 0.5) vs"

definition placement :: "int \<Rightarrow> int \<Rightarrow> vardict \<Rightarrow> solution \<Rightarrow> (int \<times> int list) list" where
  "placement C V cached_vars sol =
     filter (\<lambda>e. snd e \<noteq> [])
       (map (\<lambda>c. (c, stored_videos cached_vars sol c (py_range V))) (py_range C))"

text \<open>The assignment constraint that one request contributes (none or one).\<close>

definition assign_of :: "endpoint_data list \<Rightarrow> vardict \<Rightarrow> request_data \<Rightarrow> constr list" where
  "assign_of eps served rq =
     (case py_index eps (endpoint rq) of
        Inl e \<Rightarrow> []
      | Inr ep \<Rightarrow>
          (let xs = vars_for_req served (id_r rq) (map fst (connections ep))
           in if xs \<noteq> [] then [assign_constr (id_r rq) xs] else []))"

text \<open>
  The (request, cache) pairs for which the cache is connected to the request's endpoint
  with a latency strictly below the datacenter latency.
\<close>

definition eligible :: "dataset \<Rightarrow> (int \<times> int) set" where
  "eligible ds =
     {(id_r rq, c) | rq c. rq \<in> set (requests ds) \<and>
        (\<exists>ep latency. py_index (endpoints ds) (endpoint rq) = Inr ep \<and>
           (c, latency) \<in> set (connections ep) \<and> latency < Ld ep)}"

text \<open>
  A well-formed dataset, after the data model of the specification: the declared counts
  are those of the lists, identifiers are the positions, the keys of a connection
  mapping are unique cache indices below C, and every request names a video and an
  endpoint that exist and has a non-negative demand.
\<close>

definition well_formed :: "dataset \<Rightarrow> bool" where
  "well_formed ds \<longleftrightarrow>
     0 \<le> ds_V ds \<and> 0 \<le> ds_E ds \<and> 0 \<le> ds_R ds \<and> 0 \<le> ds_C ds \<and>
     int (length (video_sizes ds)) = ds_V ds \<and>
     map id_e (endpoints ds) = py_range (ds_E ds) \<and>
     map id_r (requests ds) = py_range (ds_R ds) \<and>
     list_all (\<lambda>ep. distinct (map fst (connections ep)) \<and>
                     list_all (\<lambda>cl. 0 \<le> fst cl \<and> fst cl < ds_C ds) (connections ep))
       (endpoints ds) \<and>
     list_all (\<lambda>rq. 0 \<le> video rq \<and> video rq < ds_V ds \<and>
                     0 \<le> endpoint rq \<and> endpoint rq < ds_E ds \<and> 0 \<le> count rq)
       (requests ds)"

text \<open>The three results of a successful build, for writing down concrete runs.\<close>

definition model_of :: "dataset \<Rightarrow> model" where
  "model_of ds = (case build_model ds of Inr (m, cached, served) \<Rightarrow> m | Inl e \<Rightarrow> new_model)"

definition cached_of :: "dataset \<Rightarrow> vardict" where
  "cached_of ds = (case build_model ds of Inr (m, cached, served) \<Rightarrow> cached | Inl e \<Rightarrow> Map.empty)"

definition served_of :: "dataset \<Rightarrow> vardict" where
  "served_of ds = (case build_model ds of Inr (m, cached, served) \<Rightarrow> served | Inl e \<Rightarrow> Map.empty)"

text \<open>
  A small dataset: two videos (sizes 5 and 20), two caches of capacity 10, one endpoint
  (datacenter latency 100) connected to cache 0 (latency 10) and cache 1 (latency 200),
  and two requests, the second for the video that fits no cache and with demand 0.
\<close>

definition example_ds :: dataset where
  "example_ds =
     \<lparr>ds_V = 2, ds_E = 1, ds_R = 2, ds_C = 2, ds_X = 10, video_sizes = [5, 20],
      endpoints = [\<lparr>id_e = 0, Ld = 100, connections = [(0, 10), (1, 200)]\<rparr>],
      requests = [\<lparr>id_r = 0, video = 0, endpoint = 0, count = 3\<rparr>,
                  \<lparr>id_r = 1, video = 1, endpoint = 0, count = 0\<rparr>]\<rparr>"

text \<open>
  A dataset whose only connection is no faster than the datacenter: one video, one
  cache, one endpoint with datacenter latency 100 and a connection of latency 100.
\<close>

definition example_slow :: dataset where
  "example_slow =
     \<lparr>ds_V = 1, ds_E = 1, ds_R = 1, ds_C = 1, ds_X = 10, video_sizes = [5],
      endpoints = [\<lparr>id_e = 0, Ld = 100, connections = [(0, 100)]\<rparr>],
      requests = [\<lparr>id_r = 0, video = 0, endpoint = 0, count = 1\<rparr>]\<rparr>"

text \<open>
  A solution of the model built for that dataset: video 0 in both caches, request 0
  served from cache 0, the variable of request 1 at 0.
\<close>

definition example_sol :: solution where
  "example_sol = (\<lambda>x. if x = 3 then 0 else 1)"

text \<open>
  The file of the first example dataset, a file system that holds it under the name
  \<open>d.in\<close>, and a file whose connection names cache 7 although one cache is declared,
  with the dataset it parses to and a solution of its model.
\<close>

definition example_lines :: "string list" where
  "example_lines =
     [''2 1 2 2 10'', ''5 20'', ''100 2'', ''0 10'', ''1 200'', ''0 0 3'', ''1 0 0'']"

definition example_files :: files where
  "example_files = (\<lambda>p. if p = ''d.in'' then Some example_lines else None)"




section \<open>Lemmas about the loops of solve_videos\<close>

lemma ext_refl [simp]: "ext m m"
  by (simp add: ext_def)

lemma ext_trans: "ext m1 m2 \<Longrightarrow> ext m2 m3 \<Longrightarrow> ext m1 m3"
  by (auto simp: ext_def)

lemma ext_addVar: "addVar n m = (y, m') \<Longrightarrow> ext m m'"
  by (auto simp: ext_def addVar_def)

lemma ext_addConstr [simp]: "ext m (addConstr k m)"
  by (simp add: ext_def addConstr_def)

lemma ext_setObjective [simp]: "ext m (setObjective e m)"
  by (simp add: ext_def setObjective_def)

lemma ext_length: "ext m m' \<Longrightarrow> length (vars m) \<le> length (vars m')"
  by (auto simp: ext_def)

lemma ext_nth: "ext m m' \<Longrightarrow> y < length (vars m) \<Longrightarrow> vars m' ! y = vars m ! y"
  by (auto simp: ext_def nth_append)

lemma ext_constr: "ext m m' \<Longrightarrow> k \<in> set (constrs m) \<Longrightarrow> k \<in> set (constrs m')"
  by (auto simp: ext_def)

lemma var_inv_empty [simp]: "var_inv nm m Map.empty"
  by (simp add: var_inv_def)

lemma var_inv_ext: "var_inv nm m d \<Longrightarrow> ext m m' \<Longrightarrow> var_inv nm m' d"
  unfolding var_inv_def using ext_length ext_nth
  by (metis less_le_trans)

lemma var_inv_addVar:
  "var_inv nm m d \<Longrightarrow> addVar (nm a b) m = (y, m') \<Longrightarrow> var_inv nm m' (d((a, b) \<mapsto> y))"
  unfolding var_inv_def addVar_def
  by (auto simp: nth_append less_Suc_eq split: if_splits)

lemma var_inv_inj:
  assumes "var_inv nm m d" and "d k = Some y" and "d k' = Some y"
    and "\<And>a b a' b'. nm a b = nm a' b' \<Longrightarrow> a = a' \<and> b = b'"
  shows "k = k'"
  using assms unfolding var_inv_def by (cases k; cases k') metis

lemma cached_loop_v_ext:
  "cached_loop_v sizes X c vs (m, cd) = Inr (m', cd') \<Longrightarrow>
     ext m m' \<and> constrs m' = constrs m \<and> objective m' = objective m"
proof (induction vs arbitrary: m cd)
  case Nil
  then show ?case by simp
next
  case (Cons v vs)
  show ?case
  proof (cases "py_index sizes v")
    case (Inl e)
    with Cons.prems show ?thesis by simp
  next
    case (Inr sz)
    show ?thesis
    proof (cases "sz \<le> X")
      case True
      obtain y m1 where a: "addVar (cached_name c v) m = (y, m1)" by force
      with Cons.prems Inr True
      have "cached_loop_v sizes X c vs (m1, cd((c, v) \<mapsto> y)) = Inr (m', cd')" by simp
      from Cons.IH [OF this] ext_addVar [OF a] a show ?thesis
        by (auto intro: ext_trans simp: addVar_def)
    next
      case False
      with Cons Inr show ?thesis by simp
    qed
  qed
qed

lemma cached_loop_v_inv:
  "cached_loop_v sizes X c vs (m, cd) = Inr (m', cd') \<Longrightarrow> var_inv cached_name m cd \<Longrightarrow>
     var_inv cached_name m' cd'"
proof (induction vs arbitrary: m cd)
  case Nil
  then show ?case by simp
next
  case (Cons v vs)
  then show ?case
    by (auto split: sum.splits if_splits prod.splits dest: var_inv_addVar)
qed

lemma cached_loop_v_dom:
  "cached_loop_v sizes X c vs (m, cd) = Inr (m', cd') \<Longrightarrow>
     dom cd' = dom cd \<union> {(c, v) | v. v \<in> set vs \<and> (\<exists>sz. py_index sizes v = Inr sz \<and> sz \<le> X)}"
proof (induction vs arbitrary: m cd)
  case Nil
  then show ?case by simp
next
  case (Cons v vs)
  then show ?case
    by (auto split: sum.splits if_splits prod.splits)
qed

lemma cached_loop_v_total:
  "\<forall>v\<in>set vs. 0 \<le> v \<and> v < int (length sizes) \<Longrightarrow> \<exists>st'. cached_loop_v sizes X c vs st = Inr st'"
proof (induction vs arbitrary: st)
  case Nil
  then show ?case by simp
next
  case (Cons v vs)
  obtain m cd where st: "st = (m, cd)" by (cases st)
  from Cons.prems have "py_index sizes v = Inr (sizes ! nat v)"
    by (simp add: py_index_def)
  with Cons st show ?case
    by (auto split: prod.splits)
qed

lemma cached_loop_c_ext:
  "cached_loop_c sizes X V cs (m, cd) = Inr (m', cd') \<Longrightarrow>
     ext m m' \<and> constrs m' = constrs m \<and> objective m' = objective m"
proof (induction cs arbitrary: m cd)
  case Nil
  then show ?case by simp
next
  case (Cons c cs)
  then obtain m1 cd1 where
    a: "cached_loop_v sizes X c (py_range V) (m, cd) = Inr (m1, cd1)" and
    b: "cached_loop_c sizes X V cs (m1, cd1) = Inr (m', cd')"
    by (auto split: sum.splits)
  from cached_loop_v_ext [OF a] Cons.IH [OF b] show ?case
    by (auto intro: ext_trans)
qed

lemma cached_loop_c_inv:
  "cached_loop_c sizes X V cs (m, cd) = Inr (m', cd') \<Longrightarrow> var_inv cached_name m cd \<Longrightarrow>
     var_inv cached_name m' cd'"
proof (induction cs arbitrary: m cd)
  case Nil
  then show ?case by simp
next
  case (Cons c cs)
  then obtain m1 cd1 where
    a: "cached_loop_v sizes X c (py_range V) (m, cd) = Inr (m1, cd1)" and
    b: "cached_loop_c sizes X V cs (m1, cd1) = Inr (m', cd')"
    by (auto split: sum.splits)
  from Cons.IH [OF b cached_loop_v_inv [OF a Cons.prems(2)]] show ?case .
qed

lemma cached_loop_c_dom:
  "cached_loop_c sizes X V cs (m, cd) = Inr (m', cd') \<Longrightarrow>
     dom cd' = dom cd \<union>
       {(c, v) | c v. c \<in> set cs \<and> v \<in> set (py_range V) \<and>
                      (\<exists>sz. py_index sizes v = Inr sz \<and> sz \<le> X)}"
proof (induction cs arbitrary: m cd)
  case Nil
  then show ?case by simp
next
  case (Cons c cs)
  then obtain m1 cd1 where
    a: "cached_loop_v sizes X c (py_range V) (m, cd) = Inr (m1, cd1)" and
    b: "cached_loop_c sizes X V cs (m1, cd1) = Inr (m', cd')"
    by (auto split: sum.splits)
  from cached_loop_v_dom [OF a] Cons.IH [OF b] show ?case
    by auto
qed

lemma cached_loop_c_total:
  "\<forall>v\<in>set (py_range V). 0 \<le> v \<and> v < int (length sizes) \<Longrightarrow>
     \<exists>st'. cached_loop_c sizes X V cs st = Inr st'"
proof (induction cs arbitrary: st)
  case Nil
  then show ?case by simp
next
  case (Cons c cs)
  from cached_loop_v_total [OF Cons.prems] obtain st1 where
    "cached_loop_v sizes X c (py_range V) st = Inr st1" by blast
  with Cons.IH [OF Cons.prems, of st1] show ?case by simp
qed

lemma cached_loop_v_names:
  "cached_loop_v sizes X c vs (m, cd) = Inr (m', cd') \<Longrightarrow>
     served_name r k \<in> set (vars m') \<Longrightarrow> served_name r k \<in> set (vars m)"
proof (induction vs arbitrary: m cd)
  case Nil
  then show ?case by simp
next
  case (Cons v vs)
  then show ?case
    by (fastforce simp: addVar_def split: sum.splits if_splits)
qed

lemma cached_loop_c_names:
  "cached_loop_c sizes X V cs (m, cd) = Inr (m', cd') \<Longrightarrow>
     served_name r k \<in> set (vars m') \<Longrightarrow> served_name r k \<in> set (vars m)"
proof (induction cs arbitrary: m cd)
  case Nil
  then show ?case by simp
next
  case (Cons c cs)
  then obtain m1 cd1 where
    a: "cached_loop_v sizes X c (py_range V) (m, cd) = Inr (m1, cd1)" and
    b: "cached_loop_c sizes X V cs (m1, cd1) = Inr (m', cd')"
    by (auto split: sum.splits)
  from Cons.IH [OF b Cons.prems(2)] cached_loop_v_names [OF a] show ?case by blast
qed

lemma set_py_range: "set (py_range n) = {i. 0 \<le> i \<and> i < n}"
proof -
  have "i \<in> int ` {0..<nat n} \<longleftrightarrow> 0 \<le> i \<and> i < n" for i
  proof
    assume "i \<in> int ` {0..<nat n}"
    then show "0 \<le> i \<and> i < n" by auto
  next
    assume "0 \<le> i \<and> i < n"
    then have "nat i \<in> {0..<nat n}" and "i = int (nat i)" by auto
    then show "i \<in> int ` {0..<nat n}" by (rule_tac image_eqI)
  qed
  then show ?thesis by (auto simp: py_range_def)
qed

lemma py_index_nonneg:
  "0 \<le> i \<Longrightarrow> py_index xs i = (if i < int (length xs) then Inr (xs ! nat i) else Inl IndexError)"
  by (simp add: py_index_def)

lemma served_body_eq:
  "served_body cached r v cnt ld c latency (m, served, obj) =
     (addConstr (case cached (c, v) of
                   Some y \<Rightarrow> link_constr r c (length (vars m)) y
                 | None \<Rightarrow> zero_constr (length (vars m)))
        (m\<lparr>vars := vars m @ [served_name r c]\<rparr>),
      served((r, c) \<mapsto> length (vars m)),
      obj @ [((ld - latency) * cnt, length (vars m))])"
  by (simp add: served_body_def addVar_def split: option.splits)

lemma served_loop_c_rule:
  assumes "P st"
    and "\<And>c latency st. (c, latency) \<in> set conns \<Longrightarrow> latency < ld \<Longrightarrow> P st \<Longrightarrow>
           P (served_body cached r v cnt ld c latency st)"
  shows "P (served_loop_c cached r v cnt ld conns st)"
  using assms
proof (induction conns arbitrary: st)
  case Nil
  then show ?case by simp
next
  case (Cons a conns)
  obtain c latency where a: "a = (c, latency)" by (cases a)
  show ?case
  proof (cases "latency < ld")
    case True
    have "P (served_body cached r v cnt ld c latency st)"
      using Cons.prems True a by simp
    then have "P (served_loop_c cached r v cnt ld conns (served_body cached r v cnt ld c latency st))"
      using Cons.prems(2) by (intro Cons.IH) auto
    with True a show ?thesis by simp
  next
    case False
    have "P (served_loop_c cached r v cnt ld conns st)"
      using Cons.prems by (intro Cons.IH) auto
    with False a show ?thesis by simp
  qed
qed

lemma served_loop_rule:
  assumes "served_loop eps cached rqs st = Inr st'" and "P st"
    and "\<And>rq ep c latency st. rq \<in> set rqs \<Longrightarrow> py_index eps (endpoint rq) = Inr ep \<Longrightarrow>
           (c, latency) \<in> set (connections ep) \<Longrightarrow> latency < Ld ep \<Longrightarrow> P st \<Longrightarrow>
           P (served_body cached (id_r rq) (video rq) (count rq) (Ld ep) c latency st)"
  shows "P st'"
  using assms
proof (induction rqs arbitrary: st)
  case Nil
  then show ?case by simp
next
  case (Cons rq rqs)
  from Cons.prems(1) obtain ep where ep: "py_index eps (endpoint rq) = Inr ep"
    and run: "served_loop eps cached rqs
                (served_loop_c cached (id_r rq) (video rq) (count rq) (Ld ep) (connections ep) st)
              = Inr st'"
    by (auto split: sum.splits)
  have "P (served_loop_c cached (id_r rq) (video rq) (count rq) (Ld ep) (connections ep) st)"
  proof (rule served_loop_c_rule [where P = P])
    show "P st" by (rule Cons.prems(2))
  next
    fix c latency st0
    assume "(c, latency) \<in> set (connections ep)" "latency < Ld ep" "P st0"
    then show "P (served_body cached (id_r rq) (video rq) (count rq) (Ld ep) c latency st0)"
      using Cons.prems(3) [of rq ep c latency st0] ep by simp
  qed
  then show ?case
    using run Cons.prems(3) by (intro Cons.IH [where st = "served_loop_c cached (id_r rq) (video rq) (count rq) (Ld ep) (connections ep) st"]) auto
qed

lemma served_loop_c_dom:
  "served_loop_c cached r v cnt ld conns (m, served, obj) = (m', served', obj') \<Longrightarrow>
     dom served' = dom served \<union> {(r, c) | c. \<exists>latency. (c, latency) \<in> set conns \<and> latency < ld}"
proof (induction conns arbitrary: m served obj)
  case Nil
  then show ?case by simp
next
  case (Cons a conns)
  obtain c latency where a: "a = (c, latency)" by (cases a)
  show ?case
  proof (cases "latency < ld")
    case True
    with Cons.prems a have "served_loop_c cached r v cnt ld conns
        (addConstr (case cached (c, v) of
                   Some y \<Rightarrow> link_constr r c (length (vars m)) y
                 | None \<Rightarrow> zero_constr (length (vars m)))
        (m\<lparr>vars := vars m @ [served_name r c]\<rparr>),
      served((r, c) \<mapsto> length (vars m)),
      obj @ [((ld - latency) * cnt, length (vars m))]) = (m', served', obj')"
      by (simp add: served_body_eq)
    from Cons.IH [OF this]
    have "dom served' = insert (r, c) (dom served) \<union>
            {(r, c) | c. \<exists>latency. (c, latency) \<in> set conns \<and> latency < ld}"
      by (auto simp: dom_def split: if_splits)
    with True a show ?thesis by auto
  next
    case False
    with Cons.prems a have "served_loop_c cached r v cnt ld conns (m, served, obj) = (m', served', obj')"
      by simp
    from Cons.IH [OF this] False a show ?thesis by auto
  qed
qed

lemma served_loop_dom:
  "served_loop eps cached rqs (m, served, obj) = Inr (m', served', obj') \<Longrightarrow>
     dom served' = dom served \<union>
       {(id_r rq, c) | rq c. rq \<in> set rqs \<and>
          (\<exists>ep latency. py_index eps (endpoint rq) = Inr ep \<and>
             (c, latency) \<in> set (connections ep) \<and> latency < Ld ep)}"
proof (induction rqs arbitrary: m served obj)
  case Nil
  then show ?case by simp
next
  case (Cons rq rqs)
  from Cons.prems obtain ep where ep: "py_index eps (endpoint rq) = Inr ep"
    and run: "served_loop eps cached rqs
                (served_loop_c cached (id_r rq) (video rq) (count rq) (Ld ep) (connections ep)
                   (m, served, obj))
              = Inr (m', served', obj')"
    by (auto split: sum.splits)
  obtain m1 served1 obj1 where
    inner: "served_loop_c cached (id_r rq) (video rq) (count rq) (Ld ep) (connections ep)
              (m, served, obj) = (m1, served1, obj1)"
    by (metis prod_cases3)
  from served_loop_c_dom [OF inner] Cons.IH [OF run [unfolded inner]] ep
  show ?case by auto
qed

lemma served_loop_total:
  "\<forall>rq\<in>set rqs. \<exists>ep. py_index eps (endpoint rq) = Inr ep \<Longrightarrow>
     \<exists>st'. served_loop eps cached rqs st = Inr st'"
proof (induction rqs arbitrary: st)
  case Nil
  then show ?case by (simp del: split_paired_Ex)
next
  case (Cons rq rqs)
  then obtain ep where ep: "py_index eps (endpoint rq) = Inr ep" by auto
  from Cons.prems have "\<forall>rq\<in>set rqs. \<exists>ep. py_index eps (endpoint rq) = Inr ep" by simp
  from Cons.IH [OF this] obtain st' where
    "served_loop eps cached rqs
       (served_loop_c cached (id_r rq) (video rq) (count rq) (Ld ep) (connections ep) st) = Inr st'"
    by blast
  with ep show ?case by (simp del: split_paired_Ex)
qed

lemma served_entry_mono:
  "served_entry eps cached m obj rq c s \<Longrightarrow> set (constrs m) \<subseteq> set (constrs m') \<Longrightarrow>
     set obj \<subseteq> set obj' \<Longrightarrow> served_entry eps cached m' obj' rq c s"
  unfolding served_entry_def by (fastforce split: option.splits)

lemma served_inv_step:
  assumes inv: "served_inv eps cached rqs st"
    and rq: "rq \<in> set rqs" and ep: "py_index eps (endpoint rq) = Inr ep"
    and conn: "(c, latency) \<in> set (connections ep)" and lt: "latency < Ld ep"
  shows "served_inv eps cached rqs
           (served_body cached (id_r rq) (video rq) (count rq) (Ld ep) c latency st)"
proof -
  obtain m served obj where st: "st = (m, served, obj)" by (metis prod_cases3)
  define s where "s = length (vars m)"
  define k where "k = (case cached (c, video rq) of
                   Some y \<Rightarrow> link_constr (id_r rq) c s y
                 | None \<Rightarrow> zero_constr s)"
  define m' where "m' = addConstr k (m\<lparr>vars := vars m @ [served_name (id_r rq) c]\<rparr>)"
  define served' where "served' = served((id_r rq, c) \<mapsto> s)"
  define obj' where "obj' = obj @ [((Ld ep - latency) * count rq, s)]"
  have body: "served_body cached (id_r rq) (video rq) (count rq) (Ld ep) c latency st
                = (m', served', obj')"
    unfolding st served_body_eq m'_def served'_def obj'_def k_def s_def by (rule refl)
  have vars': "vars m' = vars m @ [served_name (id_r rq) c]"
    and constrs': "constrs m' = constrs m @ [k]"
    by (simp_all add: m'_def addConstr_def)
  from inv st have i1: "var_inv served_name m served"
    and i2: "\<forall>x\<in>snd ` set obj. x < length (vars m)"
    and i3: "distinct (map snd obj)"
    and i4: "\<forall>k\<in>set (constrs m). \<forall>r. cname k \<noteq> assign_name r"
    and i6: "\<forall>r c. served_name r c \<in> set (vars m) \<longrightarrow> served (r, c) \<noteq> None"
    and i5: "\<forall>r c s. served (r, c) = Some s \<longrightarrow>
             (\<exists>rq\<in>set rqs. id_r rq = r \<and> served_entry eps cached m obj rq c s)"
    by (simp_all add: served_inv_def)
  have j6: "\<forall>r c. served_name r c \<in> set (vars m') \<longrightarrow> served' (r, c) \<noteq> None"
    using i6 by (auto simp: vars' served'_def)
  have j1: "var_inv served_name m' served'"
    using i1 unfolding var_inv_def served'_def vars' s_def
    by (auto simp: nth_append less_Suc_eq split: if_splits)
  have j2: "\<forall>x\<in>snd ` set obj'. x < length (vars m')"
    using i2 by (auto simp: obj'_def vars' s_def less_Suc_eq)
  have "s \<notin> snd ` set obj" using i2 s_def by auto
  then have j3: "distinct (map snd obj')"
    using i3 by (simp add: obj'_def)
  have "cname k \<noteq> assign_name r" for r
    by (simp add: k_def link_constr_def zero_constr_def split: option.splits)
  then have j4: "\<forall>k\<in>set (constrs m'). \<forall>r. cname k \<noteq> assign_name r"
    using i4 by (auto simp: constrs')
  have new: "served_entry eps cached m' obj' rq c s"
    unfolding served_entry_def
    using ep conn lt by (auto simp: obj'_def constrs' k_def split: option.splits)
  have j5: "\<exists>rq\<in>set rqs. id_r rq = r' \<and> served_entry eps cached m' obj' rq c' s'"
    if "served' (r', c') = Some s'" for r' c' s'
  proof (cases "(r', c') = (id_r rq, c)")
    case True
    with that have "s' = s" by (simp add: served'_def)
    with True new rq show ?thesis by auto
  next
    case False
    with that have "served (r', c') = Some s'" by (auto simp: served'_def split: if_splits)
    with i5 obtain rq' where "rq' \<in> set rqs" "id_r rq' = r'"
      "served_entry eps cached m obj rq' c' s'" by blast
    moreover have "set (constrs m) \<subseteq> set (constrs m')" "set obj \<subseteq> set obj'"
      by (auto simp: constrs' obj'_def)
    ultimately show ?thesis using served_entry_mono by blast
  qed
  from j1 j2 j3 j4 j5 j6 show ?thesis
    unfolding body served_inv_def by simp
qed

lemma served_loop_inv:
  assumes "served_loop eps cached rqs st = Inr st'" and "served_inv eps cached rqs st"
  shows "served_inv eps cached rqs st'"
  using assms(1) assms(2)
  by (rule served_loop_rule) (rule served_inv_step)

lemma served_loop_ext:
  assumes "served_loop eps cached rqs (m, served, obj) = Inr (m', served', obj')"
  shows "ext m m' \<and> objective m' = objective m"
proof -
  have "ext_st m (m', served', obj')"
    using assms
  proof (rule served_loop_rule)
    show "ext_st m (m, served, obj)" by (simp add: ext_st_def)
  next
    fix rq ep c latency st
    assume "ext_st m st"
    then show "ext_st m (served_body cached (id_r rq) (video rq) (count rq) (Ld ep) c latency st)"
      by (cases st) (auto simp: ext_st_def served_body_eq ext_def addConstr_def)
  qed
  then show ?thesis by (simp add: ext_st_def)
qed

lemma capacity_lhs_Nil [simp]: "capacity_lhs sizes cached c [] = []"
  by (simp add: capacity_lhs_def map_filter_simps)

lemma capacity_lhs_Cons [simp]:
  "capacity_lhs sizes cached c (v # vs) =
     (case cached (c, v) of
        None \<Rightarrow> capacity_lhs sizes cached c vs
      | Some y \<Rightarrow> (sizes ! nat v, y) # capacity_lhs sizes cached c vs)"
  by (simp add: capacity_lhs_def map_filter_simps split: option.splits)

lemma cap_terms_eq:
  "\<forall>v\<in>set vs. cached (c, v) \<noteq> None \<longrightarrow> 0 \<le> v \<and> v < int (length sizes) \<Longrightarrow>
     cap_terms sizes cached c vs = Inr (capacity_lhs sizes cached c vs)"
  by (induction vs) (auto simp: py_index_nonneg split: option.splits)

lemma cap_loop_eq:
  "\<forall>c\<in>set cs. \<forall>v\<in>set (py_range V). cached (c, v) \<noteq> None \<longrightarrow> 0 \<le> v \<and> v < int (length sizes) \<Longrightarrow>
     cap_loop sizes X V cached cs m =
       Inr (m\<lparr>constrs := constrs m @
              map (\<lambda>c. cap_constr c (capacity_lhs sizes cached c (py_range V)) X) cs\<rparr>)"
proof (induction cs arbitrary: m)
  case Nil
  then show ?case by simp
next
  case (Cons c cs)
  then have "cap_terms sizes cached c (py_range V) = Inr (capacity_lhs sizes cached c (py_range V))"
    by (intro cap_terms_eq) simp
  with Cons show ?case by (simp add: addConstr_def)
qed

lemma assign_loop_eq:
  "assign_loop eps served rqs m = Inr m' \<Longrightarrow>
     vars m' = vars m \<and> objective m' = objective m \<and>
     constrs m' = constrs m @ concat (map (assign_of eps served) rqs)"
proof (induction rqs arbitrary: m)
  case Nil
  then show ?case by simp
next
  case (Cons rq rqs)
  from Cons.prems obtain ep where ep: "py_index eps (endpoint rq) = Inr ep"
    by (auto split: sum.splits)
  define xs where "xs = vars_for_req served (id_r rq) (map fst (connections ep))"
  show ?case
  proof (cases "xs = []")
    case True
    with Cons.prems ep have "assign_loop eps served rqs m = Inr m'"
      by (simp add: xs_def)
    from Cons.IH [OF this] True ep show ?thesis
      by (simp add: assign_of_def xs_def)
  next
    case False
    with Cons.prems ep
    have "assign_loop eps served rqs (addConstr (assign_constr (id_r rq) xs) m) = Inr m'"
      by (simp add: xs_def)
    from Cons.IH [OF this] False ep show ?thesis
      by (simp add: assign_of_def xs_def addConstr_def)
  qed
qed

lemma assign_loop_total:
  "\<forall>rq\<in>set rqs. \<exists>ep. py_index eps (endpoint rq) = Inr ep \<Longrightarrow>
     \<exists>m'. assign_loop eps served rqs m = Inr m'"
proof (induction rqs arbitrary: m)
  case Nil
  then show ?case by simp
next
  case (Cons rq rqs)
  then obtain ep where ep: "py_index eps (endpoint rq) = Inr ep" by auto
  from Cons.prems have "\<forall>rq\<in>set rqs. \<exists>ep. py_index eps (endpoint rq) = Inr ep" by simp
  from Cons.IH [OF this] ep show ?case by (simp add: Let_def)
qed

lemma fits_iff:
  "v \<in> set (py_range V) \<and> (\<exists>sz. py_index sizes v = Inr sz \<and> sz \<le> X) \<longleftrightarrow>
     0 \<le> v \<and> v < V \<and> v < int (length sizes) \<and> sizes ! nat v \<le> X"
  by (auto simp: set_py_range py_index_nonneg split: if_splits)

lemma cached_loop_c_dom_iff:
  assumes "cached_loop_c sizes X V cs (m, cd) = Inr (m', cd')"
  shows "(c, v) \<in> dom cd' \<longleftrightarrow>
           (c, v) \<in> dom cd \<or>
           (c \<in> set cs \<and> 0 \<le> v \<and> v < V \<and> v < int (length sizes) \<and> sizes ! nat v \<le> X)"
proof -
  have "(c, v) \<in> dom cd' \<longleftrightarrow> (c, v) \<in> dom cd \<or>
          (c \<in> set cs \<and> (v \<in> set (py_range V) \<and> (\<exists>sz. py_index sizes v = Inr sz \<and> sz \<le> X)))"
    unfolding cached_loop_c_dom [OF assms] by blast
  then show ?thesis unfolding fits_iff .
qed

lemma build_model_phases:
  assumes "build_model ds = Inr (m, cached, served)"
  obtains m1 m2 where
    "cached_loop_c (video_sizes ds) (ds_X ds) (ds_V ds) (py_range (ds_C ds))
       (new_model, Map.empty) = Inr (m1, cached)"
    "served_loop (endpoints ds) cached (requests ds) (m1, Map.empty, []) =
       Inr (m2, served, objective m)"
    "vars m = vars m2"
    "constrs m = constrs m2 @
       map (\<lambda>c. cap_constr c (capacity_lhs (video_sizes ds) cached c (py_range (ds_V ds))) (ds_X ds))
         (py_range (ds_C ds)) @
       concat (map (assign_of (endpoints ds) served) (requests ds))"
proof -
  from assms obtain m1 m2 obj m3 where
    p1: "cached_loop_c (video_sizes ds) (ds_X ds) (ds_V ds) (py_range (ds_C ds))
           (new_model, Map.empty) = Inr (m1, cached)" and
    p2: "served_loop (endpoints ds) cached (requests ds) (m1, Map.empty, []) =
           Inr (m2, served, obj)" and
    p3: "cap_loop (video_sizes ds) (ds_X ds) (ds_V ds) cached (py_range (ds_C ds))
           (setObjective obj m2) = Inr m3" and
    p4: "assign_loop (endpoints ds) served (requests ds) m3 = Inr m"
    unfolding build_model_def build_caps_def by (auto split: sum.splits prod.splits)
  have "\<forall>c\<in>set (py_range (ds_C ds)). \<forall>v\<in>set (py_range (ds_V ds)).
          cached (c, v) \<noteq> None \<longrightarrow> 0 \<le> v \<and> v < int (length (video_sizes ds))"
    using cached_loop_c_dom_iff [OF p1] by (auto simp: dom_def)
  from cap_loop_eq [OF this] p3
  have m3: "m3 = (setObjective obj m2)\<lparr>constrs := constrs (setObjective obj m2) @
              map (\<lambda>c. cap_constr c (capacity_lhs (video_sizes ds) cached c (py_range (ds_V ds)))
                     (ds_X ds)) (py_range (ds_C ds))\<rparr>"
    by simp
  from assign_loop_eq [OF p4] m3
  have "objective m = obj" "vars m = vars m2"
    "constrs m = constrs m2 @
       map (\<lambda>c. cap_constr c (capacity_lhs (video_sizes ds) cached c (py_range (ds_V ds))) (ds_X ds))
         (py_range (ds_C ds)) @
       concat (map (assign_of (endpoints ds) served) (requests ds))"
    by (simp_all add: setObjective_def)
  with p1 p2 that show thesis by blast
qed

lemma build_model_cached:
  assumes "build_model ds = Inr (m, cached, served)"
  shows "var_inv cached_name m cached"
    and "dom cached =
           {(c, v). 0 \<le> c \<and> c < ds_C ds \<and> 0 \<le> v \<and> v < ds_V ds \<and>
                    v < int (length (video_sizes ds)) \<and> video_sizes ds ! nat v \<le> ds_X ds}"
proof -
  from assms obtain m1 m2 where
    p1: "cached_loop_c (video_sizes ds) (ds_X ds) (ds_V ds) (py_range (ds_C ds))
           (new_model, Map.empty) = Inr (m1, cached)" and
    p2: "served_loop (endpoints ds) cached (requests ds) (m1, Map.empty, []) =
           Inr (m2, served, objective m)" and
    v: "vars m = vars m2"
    by (rule build_model_phases)
  have "var_inv cached_name m1 cached"
    using p1 by (rule cached_loop_c_inv) simp
  moreover have "ext m1 m2" using served_loop_ext [OF p2] by simp
  ultimately have "var_inv cached_name m2 cached" by (rule var_inv_ext)
  then show "var_inv cached_name m cached" by (simp add: var_inv_def v)
  show "dom cached =
           {(c, v). 0 \<le> c \<and> c < ds_C ds \<and> 0 \<le> v \<and> v < ds_V ds \<and>
                    v < int (length (video_sizes ds)) \<and> video_sizes ds ! nat v \<le> ds_X ds}"
    using cached_loop_c_dom_iff [OF p1] by (auto simp: set_py_range)
qed

lemma build_model_served:
  assumes "build_model ds = Inr (m, cached, served)"
  shows "var_inv served_name m served"
    and "dom served = eligible ds"
    and "\<forall>x\<in>snd ` set (objective m). x < length (vars m)"
    and "distinct (map snd (objective m))"
    and "served_name r' c' \<in> set (vars m) \<Longrightarrow> served (r', c') \<noteq> None"
    and "served (r, c) = Some s \<Longrightarrow>
           \<exists>rq\<in>set (requests ds). id_r rq = r \<and>
             served_entry (endpoints ds) cached m (objective m) rq c s"
proof -
  from assms obtain m1 m2 where
    p1: "cached_loop_c (video_sizes ds) (ds_X ds) (ds_V ds) (py_range (ds_C ds))
           (new_model, Map.empty) = Inr (m1, cached)" and
    p2: "served_loop (endpoints ds) cached (requests ds) (m1, Map.empty, []) =
           Inr (m2, served, objective m)" and
    v: "vars m = vars m2" and
    k: "constrs m = constrs m2 @
       map (\<lambda>c. cap_constr c (capacity_lhs (video_sizes ds) cached c (py_range (ds_V ds))) (ds_X ds))
         (py_range (ds_C ds)) @
       concat (map (assign_of (endpoints ds) served) (requests ds))"
    by (rule build_model_phases)
  have "served_inv (endpoints ds) cached (requests ds) (m1, Map.empty, [])"
    using cached_loop_c_ext [OF p1] cached_loop_c_names [OF p1]
    by (auto simp: served_inv_def new_model_def)
  from served_loop_inv [OF p2 this]
  have i1: "var_inv served_name m2 served"
    and i2: "\<forall>x\<in>snd ` set (objective m). x < length (vars m2)"
    and i3: "distinct (map snd (objective m))"
    and i6: "\<forall>r c. served_name r c \<in> set (vars m2) \<longrightarrow> served (r, c) \<noteq> None"
    and i5: "\<forall>r c s. served (r, c) = Some s \<longrightarrow>
             (\<exists>rq\<in>set (requests ds). id_r rq = r \<and>
                served_entry (endpoints ds) cached m2 (objective m) rq c s)"
    by (simp_all add: served_inv_def)
  from i6 show "served_name r' c' \<in> set (vars m) \<Longrightarrow> served (r', c') \<noteq> None"
    by (simp add: v)
  from i1 show "var_inv served_name m served" by (simp add: var_inv_def v)
  from served_loop_dom [OF p2] show "dom served = eligible ds" by (simp add: eligible_def)
  from i2 show "\<forall>x\<in>snd ` set (objective m). x < length (vars m)" by (simp add: v)
  from i3 show "distinct (map snd (objective m))" .
  assume "served (r, c) = Some s"
  with i5 obtain rq where "rq \<in> set (requests ds)" "id_r rq = r"
    "served_entry (endpoints ds) cached m2 (objective m) rq c s" by blast
  moreover have "set (constrs m2) \<subseteq> set (constrs m)" by (auto simp: k)
  ultimately show "\<exists>rq\<in>set (requests ds). id_r rq = r \<and>
             served_entry (endpoints ds) cached m (objective m) rq c s"
    using served_entry_mono by blast
qed

lemma distinct_py_range [simp]: "distinct (py_range n)"
  by (simp add: py_range_def distinct_map inj_on_def)

lemma length_py_range [simp]: "length (py_range n) = nat n"
  by (simp add: py_range_def)

lemma same_id:
  "distinct (map id_r rqs) \<Longrightarrow> rq \<in> set rqs \<Longrightarrow> rq' \<in> set rqs \<Longrightarrow> id_r rq = id_r rq' \<Longrightarrow> rq = rq'"
  by (auto simp: distinct_map inj_on_def)


lemma same_var:
  "distinct (map snd xs) \<Longrightarrow> (k, s) \<in> set xs \<Longrightarrow> (k', s) \<in> set xs \<Longrightarrow> k = k'"
  using inj_onD [of snd "set xs" "(k, s)" "(k', s)"] by (simp add: distinct_map)

lemma well_formed_ids: "well_formed ds \<Longrightarrow> distinct (map id_r (requests ds))"
  by (simp add: well_formed_def)

lemma well_formed_endpoint:
  assumes "well_formed ds" and "rq \<in> set (requests ds)"
  shows "py_index (endpoints ds) (endpoint rq) = Inr (endpoints ds ! nat (endpoint rq))"
    and "endpoints ds ! nat (endpoint rq) \<in> set (endpoints ds)"
proof -
  from assms have "length (endpoints ds) = nat (ds_E ds)"
    by (metis well_formed_def length_map length_py_range)
  moreover from assms have "0 \<le> endpoint rq \<and> endpoint rq < ds_E ds"
    by (auto simp: well_formed_def list_all_iff)
  ultimately show "py_index (endpoints ds) (endpoint rq) = Inr (endpoints ds ! nat (endpoint rq))"
    and "endpoints ds ! nat (endpoint rq) \<in> set (endpoints ds)"
    by (auto simp: py_index_nonneg)
qed

lemma build_model_total:
  assumes "0 < ds_C ds \<longrightarrow> ds_V ds \<le> int (length (video_sizes ds))"
    and "\<forall>rq\<in>set (requests ds). \<exists>ep. py_index (endpoints ds) (endpoint rq) = Inr ep"
  shows "\<exists>m cached served. build_model ds = Inr (m, cached, served)"
proof -
  have "\<exists>st. cached_loop_c (video_sizes ds) (ds_X ds) (ds_V ds) (py_range (ds_C ds))
           (new_model, Map.empty) = Inr st"
  proof (cases "0 < ds_C ds")
    case True
    with assms(1) show ?thesis
      by (intro cached_loop_c_total) (auto simp: set_py_range)
  next
    case False
    then have "py_range (ds_C ds) = []" by (simp add: py_range_def)
    then show ?thesis by simp
  qed
  then obtain m1 cached where
    p1: "cached_loop_c (video_sizes ds) (ds_X ds) (ds_V ds) (py_range (ds_C ds))
           (new_model, Map.empty) = Inr (m1, cached)" by force
  from served_loop_total [OF assms(2)] obtain m2 served obj where
    p2: "served_loop (endpoints ds) cached (requests ds) (m1, Map.empty, []) =
           Inr (m2, served, obj)" by (metis prod_cases3)
  have "\<forall>c\<in>set (py_range (ds_C ds)). \<forall>v\<in>set (py_range (ds_V ds)).
          cached (c, v) \<noteq> None \<longrightarrow> 0 \<le> v \<and> v < int (length (video_sizes ds))"
    using cached_loop_c_dom_iff [OF p1] by (auto simp: dom_def)
  from cap_loop_eq [OF this] obtain m3 where
    p3: "cap_loop (video_sizes ds) (ds_X ds) (ds_V ds) cached (py_range (ds_C ds))
           (setObjective obj m2) = Inr m3" by blast
  from assign_loop_total [OF assms(2)] obtain m4 where
    p4: "assign_loop (endpoints ds) served (requests ds) m3 = Inr m4" by blast
  from p1 p2 p3 p4 show ?thesis by (simp add: build_model_def build_caps_def)
qed

lemma well_formed_build:
  "well_formed ds \<Longrightarrow> \<exists>m cached served. build_model ds = Inr (m, cached, served)"
  using well_formed_endpoint(1) by (intro build_model_total) (auto simp: well_formed_def)

lemma build_model_of:
  "build_model ds = Inr (m, cached, served) \<Longrightarrow>
     build_model ds = Inr (model_of ds, cached_of ds, served_of ds)"
  by (simp add: model_of_def cached_of_def served_of_def)

lemma well_formed_example_ds: "well_formed example_ds"
  by code_simp

lemma well_formed_example_slow: "well_formed example_slow"
  by code_simp

lemma example_slow_built:
  "build_model example_slow =
     Inr (model_of example_slow, cached_of example_slow, served_of example_slow)"
  using well_formed_build [OF well_formed_example_slow] build_model_of by blast

lemma example_ds_built:
  "build_model example_ds =
     Inr (model_of example_ds, cached_of example_ds, served_of example_ds)"
  using well_formed_build [OF well_formed_example_ds] build_model_of by blast

section \<open>Lemmas about generate_output and about solutions\<close>

lemma videos_loop_eq:
  "videos_loop cached_vars sol c vs acc = acc @ map str_int (stored_videos cached_vars sol c vs)"
  by (induction vs arbitrary: acc) (auto simp: stored_videos_def split: option.splits)

lemma dict_set_fresh: "k \<notin> fst ` set d \<Longrightarrow> dict_set d k v = d @ [(k, v)]"
  by (induction d) auto

lemma content_loop_eq:
  "distinct cs \<Longrightarrow> set cs \<inter> fst ` set cc = {} \<Longrightarrow>
     content_loop V cached_vars sol cs cc =
       cc @ map (\<lambda>e. (fst e, map str_int (snd e)))
              (filter (\<lambda>e. snd e \<noteq> [])
                 (map (\<lambda>c. (c, stored_videos cached_vars sol c (py_range V))) cs))"
proof (induction cs arbitrary: cc)
  case Nil
  then show ?case by simp
next
  case (Cons c cs)
  let ?vs = "stored_videos cached_vars sol c (py_range V)"
  show ?case
  proof (cases "?vs = []")
    case True
    with Cons show ?thesis by (simp add: videos_loop_eq)
  next
    case False
    from Cons.prems have fresh: "c \<notin> fst ` set cc" by auto
    from Cons.prems have "set cs \<inter> fst ` set (cc @ [(c, map str_int ?vs)]) = {}" by auto
    with Cons.prems have "content_loop V cached_vars sol cs (cc @ [(c, map str_int ?vs)]) =
       (cc @ [(c, map str_int ?vs)]) @ map (\<lambda>e. (fst e, map str_int (snd e)))
              (filter (\<lambda>e. snd e \<noteq> [])
                 (map (\<lambda>c. (c, stored_videos cached_vars sol c (py_range V))) cs))"
      by (intro Cons.IH) auto
    with False fresh show ?thesis by (simp add: videos_loop_eq dict_set_fresh)
  qed
qed

lemma cache_content_eq:
  "cache_content C V cached_vars sol =
     map (\<lambda>e. (fst e, map str_int (snd e))) (placement C V cached_vars sol)"
  unfolding cache_content_def placement_def
  by (subst content_loop_eq) simp_all


lemma feasible_binary: "feasible m sol \<Longrightarrow> x < length (vars m) \<Longrightarrow> sol x = 0 \<or> sol x = 1"
  by (simp add: feasible_def list_all_iff)

lemma feasible_constr: "feasible m sol \<Longrightarrow> k \<in> set (constrs m) \<Longrightarrow> satisfies sol k"
  by (simp add: feasible_def list_all_iff)


section \<open>Lemmas about the assignment constraints\<close>

lemma served_loop_endpoints:
  "served_loop eps cached rqs st = Inr st' \<Longrightarrow> rq \<in> set rqs \<Longrightarrow>
     \<exists>ep. py_index eps (endpoint rq) = Inr ep"
proof (induction rqs arbitrary: st)
  case Nil
  then show ?case by simp
next
  case (Cons a rqs)
  from Cons.prems(1) obtain ep where ep: "py_index eps (endpoint a) = Inr ep"
    and run: "served_loop eps cached rqs
                (served_loop_c cached (id_r a) (video a) (count a) (Ld ep) (connections ep) st)
              = Inr st'"
    by (auto split: sum.splits)
  show ?case
  proof (cases "rq = a")
    case True
    with ep show ?thesis by blast
  next
    case False
    with Cons.prems(2) have "rq \<in> set rqs" by simp
    from Cons.IH [OF run this] show ?thesis .
  qed
qed

lemma build_model_endpoints:
  assumes "build_model ds = Inr (m, cached, served)" and "rq \<in> set (requests ds)"
  shows "\<exists>ep. py_index (endpoints ds) (endpoint rq) = Inr ep"
proof -
  from assms(1) obtain m1 m2 where
    "cached_loop_c (video_sizes ds) (ds_X ds) (ds_V ds) (py_range (ds_C ds))
       (new_model, Map.empty) = Inr (m1, cached)" and
    p2: "served_loop (endpoints ds) cached (requests ds) (m1, Map.empty, []) =
       Inr (m2, served, objective m)" and
    "vars m = vars m2" and
    "constrs m = constrs m2 @
       map (\<lambda>c. cap_constr c (capacity_lhs (video_sizes ds) cached c (py_range (ds_V ds))) (ds_X ds))
         (py_range (ds_C ds)) @
       concat (map (assign_of (endpoints ds) served) (requests ds))"
    by (rule build_model_phases)
  from served_loop_endpoints [OF p2 assms(2)] show ?thesis .
qed

lemma build_model_assign:
  assumes "build_model ds = Inr (m, cached, served)"
  shows "set (concat (map (assign_of (endpoints ds) served) (requests ds))) \<subseteq> set (constrs m)"
    and "k \<in> set (constrs m) \<Longrightarrow> cname k = assign_name r \<Longrightarrow>
           k \<in> set (concat (map (assign_of (endpoints ds) served) (requests ds)))"
proof -
  from assms(1) obtain m1 m2 where
    p1: "cached_loop_c (video_sizes ds) (ds_X ds) (ds_V ds) (py_range (ds_C ds))
       (new_model, Map.empty) = Inr (m1, cached)" and
    p2: "served_loop (endpoints ds) cached (requests ds) (m1, Map.empty, []) =
       Inr (m2, served, objective m)" and
    "vars m = vars m2" and
    k: "constrs m = constrs m2 @
       map (\<lambda>c. cap_constr c (capacity_lhs (video_sizes ds) cached c (py_range (ds_V ds))) (ds_X ds))
         (py_range (ds_C ds)) @
       concat (map (assign_of (endpoints ds) served) (requests ds))"
    by (rule build_model_phases)
  show "set (concat (map (assign_of (endpoints ds) served) (requests ds))) \<subseteq> set (constrs m)"
    unfolding k by auto
  have "served_inv (endpoints ds) cached (requests ds) (m1, Map.empty, [])"
    using cached_loop_c_ext [OF p1] cached_loop_c_names [OF p1]
    by (auto simp: served_inv_def new_model_def)
  from served_loop_inv [OF p2 this]
  have i4: "\<forall>k\<in>set (constrs m2). \<forall>r. cname k \<noteq> assign_name r"
    by (simp add: served_inv_def)
  assume "k \<in> set (constrs m)" "cname k = assign_name r"
  with i4 show "k \<in> set (concat (map (assign_of (endpoints ds) served) (requests ds)))"
    unfolding k by (auto simp: cap_constr_def)
qed

lemma set_vars_for_req:
  "set (vars_for_req served r cs) = {s. \<exists>c\<in>set cs. served (r, c) = Some s}"
  by (force simp: vars_for_req_def map_filter_def)

lemma eval_assign: "eval_expr sol (map (\<lambda>x. (1, x)) xs) = sum_list (map sol xs)"
  by (induction xs) (simp_all add: eval_expr_def)

lemma sum_list_two_members:
  assumes "\<forall>x\<in>set xs. (0::real) \<le> f x" and "a \<in> set xs" and "b \<in> set xs" and "a \<noteq> b"
  shows "f a + f b \<le> sum_list (map f xs)"
proof -
  have "f a + f b = sum f {a, b}" using assms(4) by simp
  also have "\<dots> \<le> sum f (set xs)"
    using assms by (intro sum_mono2) auto
  also have "\<dots> \<le> sum_list (map f xs)"
    using assms(1)
  proof (induction xs)
    case Nil
    then show ?case by simp
  next
    case (Cons x xs)
    then have ih: "sum f (set xs) \<le> sum_list (map f xs)" by simp
    from Cons.prems have nn: "0 \<le> f x" by simp
    show ?case
    proof (cases "x \<in> set xs")
      case True
      then have "insert x (set xs) = set xs" by auto
      with ih nn show ?thesis by simp
    next
      case False
      with ih show ?thesis by simp
    qed
  qed
  finally show ?thesis .
qed

section \<open>Lemmas about the placement\<close>

lemma sorted_py_range: "sorted_wrt (<) (py_range n)"
  by (simp add: py_range_def sorted_wrt_map)

lemma stored_videos_sorted: "sorted_wrt (<) (stored_videos cached_vars sol c (py_range V))"
  unfolding stored_videos_def by (intro sorted_wrt_filter sorted_py_range)

lemma set_stored_videos:
  "set (stored_videos cached_vars sol c (py_range V)) =
     {v. 0 \<le> v \<and> v < V \<and> (\<exists>y. cached_vars (c, v) = Some y \<and> sol y > 0.5)}"
  by (auto simp: stored_videos_def set_py_range split: option.splits)

lemma map_fst_placement:
  "map fst (placement C V cached_vars sol) =
     filter (\<lambda>c. stored_videos cached_vars sol c (py_range V) \<noteq> []) (py_range C)"
  by (simp add: placement_def filter_map comp_def)

lemma placement_entry:
  "e \<in> set (placement C V cached_vars sol) \<Longrightarrow>
     snd e = stored_videos cached_vars sol (fst e) (py_range V)"
  by (auto simp: placement_def)

lemma stored_nonempty_iff:
  "stored_videos cached_vars sol c (py_range V) \<noteq> [] \<longleftrightarrow>
     (\<exists>v y. 0 \<le> v \<and> v < V \<and> cached_vars (c, v) = Some y \<and> sol y > 0.5)"
proof -
  have "stored_videos cached_vars sol c (py_range V) \<noteq> [] \<longleftrightarrow>
          set (stored_videos cached_vars sol c (py_range V)) \<noteq> {}"
    by simp
  then show ?thesis unfolding set_stored_videos by blast
qed

section \<open>Lemmas about read_input\<close>

lemma int_fields_take:
  "int_fields (take j lines) i = (if i < j then int_fields lines i else Inl IndexError)"
  by (auto simp: int_fields_def)

lemma read2_cong: "int_fields lines' i = int_fields lines i \<Longrightarrow> read2 lines' i = read2 lines i"
  by (simp add: read2_def)

lemma read3_cong: "int_fields lines' i = int_fields lines i \<Longrightarrow> read3 lines' i = read3 lines i"
  by (simp add: read3_def)

lemma read5_cong: "int_fields lines' i = int_fields lines i \<Longrightarrow> read5 lines' i = read5 lines i"
  by (simp add: read5_def)

lemma read2_take:
  "read2 (take j lines) i = (if i < j then read2 lines i else Inl IndexError)"
  by (simp add: read2_def int_fields_take)

lemma read3_take:
  "read3 (take j lines) i = (if i < j then read3 lines i else Inl IndexError)"
  by (simp add: read3_def int_fields_take)

lemma keys_dict_set:
  "map fst (dict_set d a b) = (if a \<in> fst ` set d then map fst d else map fst d @ [a])"
proof (induction d)
  case Nil
  then show ?case by simp
next
  case (Cons x d)
  obtain k v where x: "x = (k, v)" by (cases x)
  show ?case
  proof (cases "k = a")
    case True
    with x show ?thesis by simp
  next
    case False
    with x Cons show ?thesis by (cases "a \<in> fst ` set d") simp_all
  qed
qed

lemma distinct_dict_set: "distinct (map fst d) \<Longrightarrow> distinct (map fst (dict_set d a b))"
  by (simp add: keys_dict_set)

lemma conn_loop_idx:
  "conn_loop lines k idx conns = Inr (conns', idx') \<Longrightarrow> idx' = idx + k"
proof (induction k arbitrary: idx conns)
  case 0
  then show ?case by simp
next
  case (Suc k)
  from Suc.prems obtain c_id latency where
    "conn_loop lines k (Suc idx) (dict_set conns c_id latency) = Inr (conns', idx')"
    by (auto split: sum.splits)
  from Suc.IH [OF this] show ?case by simp
qed

lemma conn_loop_agree:
  "conn_loop lines k idx conns = Inr res \<Longrightarrow>
   \<forall>i. idx \<le> i \<and> i < idx + k \<longrightarrow> int_fields lines' i = int_fields lines i \<Longrightarrow>
     conn_loop lines' k idx conns = Inr res"
proof (induction k arbitrary: idx conns)
  case 0
  then show ?case by simp
next
  case (Suc k)
  from Suc.prems(2) have "read2 lines' idx = read2 lines idx"
    by (intro read2_cong) simp
  moreover from Suc.prems(1) obtain c_id latency where
    r: "read2 lines idx = Inr (c_id, latency)" and
    l: "conn_loop lines k (Suc idx) (dict_set conns c_id latency) = Inr res"
    by (auto split: sum.splits)
  moreover from Suc.prems(2) have
    "\<forall>i. Suc idx \<le> i \<and> i < Suc idx + k \<longrightarrow> int_fields lines' i = int_fields lines i" by simp
  from Suc.IH [OF l this] have
    "conn_loop lines' k (Suc idx) (dict_set conns c_id latency) = Inr res" .
  ultimately show ?case by simp
qed

lemma conn_loop_take:
  "conn_loop lines k idx conns = Inr res \<Longrightarrow> idx \<le> j \<Longrightarrow> j < idx + k \<Longrightarrow>
     conn_loop (take j lines) k idx conns = Inl IndexError"
proof (induction k arbitrary: idx conns)
  case 0
  then show ?case by simp
next
  case (Suc k)
  from Suc.prems(1) obtain c_id latency where
    r: "read2 lines idx = Inr (c_id, latency)" and
    l: "conn_loop lines k (Suc idx) (dict_set conns c_id latency) = Inr res"
    by (auto split: sum.splits)
  show ?case
  proof (cases "idx = j")
    case True
    then show ?thesis by (simp add: read2_take)
  next
    case False
    with Suc.prems have "Suc idx \<le> j" "j < Suc idx + k" "idx < j" by simp_all
    from Suc.IH [OF l this(1,2)] r \<open>idx < j\<close> show ?thesis by (simp add: read2_take)
  qed
qed

lemma conn_loop_distinct:
  "conn_loop lines k idx conns = Inr (conns', idx') \<Longrightarrow> distinct (map fst conns) \<Longrightarrow>
     distinct (map fst conns')"
proof (induction k arbitrary: idx conns)
  case 0
  then show ?case by simp
next
  case (Suc k)
  from Suc.prems(1) obtain c_id latency where
    l: "conn_loop lines k (Suc idx) (dict_set conns c_id latency) = Inr (conns', idx')"
    by (auto split: sum.splits)
  from Suc.IH [OF l distinct_dict_set [OF Suc.prems(2)]] show ?case .
qed

lemma endpoint_loop_mono:
  "endpoint_loop lines es idx eps = Inr (eps', idx') \<Longrightarrow> idx \<le> idx'"
proof (induction es arbitrary: idx eps)
  case Nil
  then show ?case by simp
next
  case (Cons e es)
  from Cons.prems obtain ld k conns idx1 where
    "conn_loop lines (nat k) (Suc idx) [] = Inr (conns, idx1)" and
    l: "endpoint_loop lines es idx1 (eps @ [\<lparr>id_e = e, Ld = ld, connections = conns\<rparr>]) = Inr (eps', idx')"
    by (auto split: sum.splits)
  from conn_loop_idx [OF this(1)] Cons.IH [OF l] show ?case by simp
qed

lemma endpoint_loop_agree:
  "endpoint_loop lines es idx eps = Inr (eps', idx') \<Longrightarrow>
   \<forall>i. idx \<le> i \<and> i < idx' \<longrightarrow> int_fields lines' i = int_fields lines i \<Longrightarrow>
     endpoint_loop lines' es idx eps = Inr (eps', idx')"
proof (induction es arbitrary: idx eps)
  case Nil
  then show ?case by simp
next
  case (Cons e es)
  from Cons.prems(1) obtain ld k conns idx1 where
    r: "read2 lines idx = Inr (ld, k)" and
    c: "conn_loop lines (nat k) (Suc idx) [] = Inr (conns, idx1)" and
    l: "endpoint_loop lines es idx1 (eps @ [\<lparr>id_e = e, Ld = ld, connections = conns\<rparr>]) = Inr (eps', idx')"
    by (auto split: sum.splits)
  from conn_loop_idx [OF c] have i1: "idx1 = Suc idx + nat k" .
  from endpoint_loop_mono [OF l] have i2: "idx1 \<le> idx'" .
  from Cons.prems(2) i1 i2 have "read2 lines' idx = read2 lines idx"
    by (intro read2_cong) simp
  moreover from Cons.prems(2) i1 i2 have
    "conn_loop lines' (nat k) (Suc idx) [] = Inr (conns, idx1)"
    by (intro conn_loop_agree [OF c]) simp
  moreover from Cons.prems(2) i1 have
    "endpoint_loop lines' es idx1 (eps @ [\<lparr>id_e = e, Ld = ld, connections = conns\<rparr>]) = Inr (eps', idx')"
    by (intro Cons.IH [OF l]) simp
  ultimately show ?case using r by simp
qed

lemma endpoint_loop_take:
  "endpoint_loop lines es idx eps = Inr (eps', idx') \<Longrightarrow> idx \<le> j \<Longrightarrow> j < idx' \<Longrightarrow>
     endpoint_loop (take j lines) es idx eps = Inl IndexError"
proof (induction es arbitrary: idx eps)
  case Nil
  then show ?case by simp
next
  case (Cons e es)
  from Cons.prems(1) obtain ld k conns idx1 where
    r: "read2 lines idx = Inr (ld, k)" and
    c: "conn_loop lines (nat k) (Suc idx) [] = Inr (conns, idx1)" and
    l: "endpoint_loop lines es idx1 (eps @ [\<lparr>id_e = e, Ld = ld, connections = conns\<rparr>]) = Inr (eps', idx')"
    by (auto split: sum.splits)
  from conn_loop_idx [OF c] have i1: "idx1 = Suc idx + nat k" .
  consider "j = idx" | "idx < j" "j < idx1" | "idx1 \<le> j"
    using Cons.prems(2) by linarith
  then show ?case
  proof cases
    case 1
    then show ?thesis by (simp add: read2_take)
  next
    case 2
    then have "conn_loop (take j lines) (nat k) (Suc idx) [] = Inl IndexError"
      using i1 by (intro conn_loop_take [OF c]) simp_all
    with 2 r show ?thesis by (simp add: read2_take)
  next
    case 3
    then have "idx < j" using i1 by simp
    have "conn_loop (take j lines) (nat k) (Suc idx) [] = Inr (conns, idx1)"
      using 3 i1 by (intro conn_loop_agree [OF c]) (simp add: int_fields_take)
    moreover from Cons.IH [OF l 3 Cons.prems(3)] have
      "endpoint_loop (take j lines) es idx1 (eps @ [\<lparr>id_e = e, Ld = ld, connections = conns\<rparr>])
         = Inl IndexError" .
    ultimately show ?thesis using r \<open>idx < j\<close> by (simp add: read2_take)
  qed
qed

lemma request_loop_idx:
  "request_loop lines rs idx rqs = Inr (rqs', idx') \<Longrightarrow> idx' = idx + length rs"
proof (induction rs arbitrary: idx rqs)
  case Nil
  then show ?case by simp
next
  case (Cons r rs)
  from Cons.prems obtain v_id e_id n_count where
    "request_loop lines rs (Suc idx)
          (rqs @ [\<lparr>id_r = r, video = v_id, endpoint = e_id, count = n_count\<rparr>]) = Inr (rqs', idx')"
    by (auto split: sum.splits)
  from Cons.IH [OF this] show ?case by simp
qed

lemma request_loop_agree:
  "request_loop lines rs idx rqs = Inr res \<Longrightarrow>
   \<forall>i. idx \<le> i \<and> i < idx + length rs \<longrightarrow> int_fields lines' i = int_fields lines i \<Longrightarrow>
     request_loop lines' rs idx rqs = Inr res"
proof (induction rs arbitrary: idx rqs)
  case Nil
  then show ?case by simp
next
  case (Cons r rs)
  from Cons.prems(2) have "read3 lines' idx = read3 lines idx"
    by (intro read3_cong) simp
  moreover from Cons.prems(1) obtain v_id e_id n_count where
    r: "read3 lines idx = Inr (v_id, e_id, n_count)" and
    l: "request_loop lines rs (Suc idx)
          (rqs @ [\<lparr>id_r = r, video = v_id, endpoint = e_id, count = n_count\<rparr>]) = Inr res"
    by (auto split: sum.splits)
  moreover from Cons.prems(2) have
    "\<forall>i. Suc idx \<le> i \<and> i < Suc idx + length rs \<longrightarrow> int_fields lines' i = int_fields lines i"
    by simp
  from Cons.IH [OF l this] have
    "request_loop lines' rs (Suc idx)
          (rqs @ [\<lparr>id_r = r, video = v_id, endpoint = e_id, count = n_count\<rparr>]) = Inr res" .
  ultimately show ?case by simp
qed

lemma request_loop_take:
  "request_loop lines rs idx rqs = Inr res \<Longrightarrow> idx \<le> j \<Longrightarrow> j < idx + length rs \<Longrightarrow>
     request_loop (take j lines) rs idx rqs = Inl IndexError"
proof (induction rs arbitrary: idx rqs)
  case Nil
  then show ?case by simp
next
  case (Cons r rs)
  from Cons.prems(1) obtain v_id e_id n_count where
    r: "read3 lines idx = Inr (v_id, e_id, n_count)" and
    l: "request_loop lines rs (Suc idx)
          (rqs @ [\<lparr>id_r = r, video = v_id, endpoint = e_id, count = n_count\<rparr>]) = Inr res"
    by (auto split: sum.splits)
  show ?case
  proof (cases "idx = j")
    case True
    then show ?thesis by (simp add: read3_take)
  next
    case False
    with Cons.prems have "Suc idx \<le> j" "j < Suc idx + length rs" "idx < j" by simp_all
    from Cons.IH [OF l this(1,2)] r \<open>idx < j\<close> show ?thesis by (simp add: read3_take)
  qed
qed


lemma read_input_at_agree:
  assumes "read_input_at lines = Inr (ds, n)"
    and "\<forall>i<n. int_fields lines' i = int_fields lines i"
  shows "read_input_at lines' = Inr (ds, n)"
    and "2 \<le> n"
proof -
  from assms(1) obtain v e r c x sizes eps idx rqs where
    h: "read5 lines 0 = Inr (v, e, r, c, x)" and
    s: "int_fields lines 1 = Inr sizes" and
    el: "endpoint_loop lines (py_range e) 2 [] = Inr (eps, idx)" and
    rl: "request_loop lines (py_range r) idx [] = Inr (rqs, n)" and
    ds: "ds = \<lparr>ds_V = v, ds_E = e, ds_R = r, ds_C = c, ds_X = x,
                video_sizes = sizes, endpoints = eps, requests = rqs\<rparr>"
    unfolding read_input_at_def by (auto split: sum.splits prod.splits)
  from endpoint_loop_mono [OF el] have i2: "2 \<le> idx" .
  from request_loop_idx [OF rl] have n: "n = idx + length (py_range r)" .
  from i2 n show "2 \<le> n" by simp
  with assms(2) have f: "int_fields lines' 0 = int_fields lines 0"
    "int_fields lines' 1 = int_fields lines 1"
    by simp_all
  from f(1) have "read5 lines' 0 = read5 lines 0" by (rule read5_cong)
  moreover note f(2)
  moreover from assms(2) n have "endpoint_loop lines' (py_range e) 2 [] = Inr (eps, idx)"
    by (intro endpoint_loop_agree [OF el]) simp
  moreover from assms(2) n have "request_loop lines' (py_range r) idx [] = Inr (rqs, n)"
    by (intro request_loop_agree [OF rl]) simp
  ultimately show "read_input_at lines' = Inr (ds, n)"
    using h s ds by (simp add: read_input_at_def)
qed

lemma read_input_at_take:
  assumes "read_input_at lines = Inr (ds, n)" and "j < n"
  shows "read_input_at (take j lines) = Inl IndexError"
proof -
  from assms(1) obtain v e r c x sizes eps idx rqs where
    h: "read5 lines 0 = Inr (v, e, r, c, x)" and
    s: "int_fields lines 1 = Inr sizes" and
    el: "endpoint_loop lines (py_range e) 2 [] = Inr (eps, idx)" and
    rl: "request_loop lines (py_range r) idx [] = Inr (rqs, n)"
    unfolding read_input_at_def by (auto split: sum.splits prod.splits)
  from request_loop_idx [OF rl] have n: "n = idx + length (py_range r)" .
  consider "j = 0" | "j = 1" | "2 \<le> j" "j < idx" | "2 \<le> j" "idx \<le> j" by linarith
  then show ?thesis
  proof cases
    case 1
    then show ?thesis by (simp add: read_input_at_def read5_def int_fields_def)
  next
    case 2
    then have "read5 (take j lines) 0 = read5 lines 0"
      by (intro read5_cong) (simp add: int_fields_take)
    with 2 h show ?thesis by (simp add: read_input_at_def int_fields_take)
  next
    case 3
    then have "read5 (take j lines) 0 = read5 lines 0"
      by (intro read5_cong) (simp add: int_fields_take)
    moreover have "endpoint_loop (take j lines) (py_range e) 2 [] = Inl IndexError"
      using 3 by (intro endpoint_loop_take [OF el])
    ultimately show ?thesis using 3 h s by (simp add: read_input_at_def int_fields_take)
  next
    case 4
    then have "read5 (take j lines) 0 = read5 lines 0"
      by (intro read5_cong) (simp add: int_fields_take)
    moreover have "endpoint_loop (take j lines) (py_range e) 2 [] = Inr (eps, idx)"
      using 4 by (intro endpoint_loop_agree [OF el]) (simp add: int_fields_take)
    moreover have "request_loop (take j lines) (py_range r) idx [] = Inl IndexError"
      using 4 assms(2) n by (intro request_loop_take [OF rl]) simp_all
    ultimately show ?thesis using 4 h s by (simp add: read_input_at_def int_fields_take)
  qed
qed

lemma read_input_at_length:
  assumes "read_input_at lines = Inr (ds, n)"
  shows "n \<le> length lines"
proof (rule ccontr)
  assume "\<not> n \<le> length lines"
  then have "length lines < n" by simp
  from read_input_at_take [OF assms this] assms show False by simp
qed

text \<open>What read_input returns is numbered by position and has unique connection keys.\<close>

lemma endpoint_loop_ids:
  "endpoint_loop lines es idx eps = Inr (eps', idx') \<Longrightarrow>
     map id_e eps' = map id_e eps @ es \<and>
     ((\<forall>ep\<in>set eps. distinct (map fst (connections ep))) \<longrightarrow>
      (\<forall>ep\<in>set eps'. distinct (map fst (connections ep))))"
proof (induction es arbitrary: idx eps)
  case Nil
  then show ?case by simp
next
  case (Cons e es)
  from Cons.prems obtain ld k conns idx1 where
    c: "conn_loop lines (nat k) (Suc idx) [] = Inr (conns, idx1)" and
    l: "endpoint_loop lines es idx1 (eps @ [\<lparr>id_e = e, Ld = ld, connections = conns\<rparr>]) = Inr (eps', idx')"
    by (auto split: sum.splits)
  from conn_loop_distinct [OF c] have "distinct (map fst conns)" by simp
  with Cons.IH [OF l] show ?case by simp
qed

lemma request_loop_ids:
  "request_loop lines rs idx rqs = Inr (rqs', idx') \<Longrightarrow> map id_r rqs' = map id_r rqs @ rs"
proof (induction rs arbitrary: idx rqs)
  case Nil
  then show ?case by simp
next
  case (Cons r rs)
  from Cons.prems obtain v_id e_id n_count where
    "request_loop lines rs (Suc idx)
          (rqs @ [\<lparr>id_r = r, video = v_id, endpoint = e_id, count = n_count\<rparr>]) = Inr (rqs', idx')"
    by (auto split: sum.splits)
  from Cons.IH [OF this] show ?case by simp
qed

lemma read_input_numbering:
  assumes "read_input lines = Inr ds"
  shows "map id_e (endpoints ds) = py_range (ds_E ds)"
    and "map id_r (requests ds) = py_range (ds_R ds)"
    and "distinct (map id_r (requests ds))"
    and "\<forall>ep\<in>set (endpoints ds). distinct (map fst (connections ep))"
proof -
  from assms obtain v e r c x sizes eps idx rqs n where
    el: "endpoint_loop lines (py_range e) 2 [] = Inr (eps, idx)" and
    rl: "request_loop lines (py_range r) idx [] = Inr (rqs, n)" and
    ds: "ds = \<lparr>ds_V = v, ds_E = e, ds_R = r, ds_C = c, ds_X = x,
              video_sizes = sizes, endpoints = eps, requests = rqs\<rparr>"
    unfolding read_input_def read_input_at_def by (auto split: sum.splits prod.splits)
  from endpoint_loop_ids [OF el] ds
  show "map id_e (endpoints ds) = py_range (ds_E ds)"
    and "\<forall>ep\<in>set (endpoints ds). distinct (map fst (connections ep))"
    by simp_all
  from request_loop_ids [OF rl] ds
  show r: "map id_r (requests ds) = py_range (ds_R ds)" by simp
  show "distinct (map id_r (requests ds))" unfolding r by simp
qed

section \<open>Lemmas about the script and the examples\<close>

lemma read_example_lines: "read_input example_lines = Inr example_ds"
  by code_simp



lemma read_input_any_cache_count:
  assumes "read_input_at lines = Inr (ds, n)"
    and hd: "map_int (py_split header) = Inr [ds_V ds, ds_E ds, ds_R ds, c', ds_X ds]"
  shows "read_input_at (header # tl lines) = Inr (ds\<lparr>ds_C := c'\<rparr>, n)"
proof -
  have len: "n \<le> length lines" by (rule read_input_at_length [OF assms(1)])
  have two: "2 \<le> n" by (rule read_input_at_agree(2) [OF assms(1), of lines]) simp
  from assms(1) obtain v e r c x sizes eps idx rqs where
    s: "int_fields lines 1 = Inr sizes" and
    el: "endpoint_loop lines (py_range e) 2 [] = Inr (eps, idx)" and
    rl: "request_loop lines (py_range r) idx [] = Inr (rqs, n)" and
    ds: "ds = \<lparr>ds_V = v, ds_E = e, ds_R = r, ds_C = c, ds_X = x,
              video_sizes = sizes, endpoints = eps, requests = rqs\<rparr>"
    unfolding read_input_at_def by (auto split: sum.splits prod.splits)
  from len two obtain l0 rest where l: "lines = l0 # rest" by (cases lines) auto
  have ag: "int_fields (header # tl lines) i = int_fields lines i" if "1 \<le> i" for i
    using that l by (cases i) (simp_all add: int_fields_def)
  from request_loop_idx [OF rl] have n: "n = idx + length (py_range r)" .
  have "read5 (header # tl lines) 0 = Inr (v, e, r, c', x)"
    using hd ds by (simp add: read5_def int_fields_def)
  moreover have "int_fields (header # tl lines) 1 = Inr sizes" using ag s by simp
  moreover have "endpoint_loop (header # tl lines) (py_range e) 2 [] = Inr (eps, idx)"
    by (intro endpoint_loop_agree [OF el]) (simp add: ag)
  moreover from endpoint_loop_mono [OF el]
  have "request_loop (header # tl lines) (py_range r) idx [] = Inr (rqs, n)"
    by (intro request_loop_agree [OF rl]) (simp add: ag)
  ultimately show ?thesis by (simp add: read_input_at_def ds)
qed




section \<open>The claims\<close>



text \<open>
  C2, as the code has it. A \<open>served[r, c]\<close> variable exists only if cache \<open>c\<close> is
  connected to the endpoint of \<open>r\<close> with a latency strictly below the datacenter
  latency; it is created whether or not \<open>cached[c, video(r)]\<close> exists. Without that
  caching variable the served variable carries the equality constraint \<open>== 0\<close> and is
  0 in every solution; with it (the video then fits the capacity) it is bounded by the
  caching variable.
\<close>

theorem served_var_needs_connection_not_cached_var:
  assumes "build_model ds = Inr (m, cached, served)"
    and "distinct (map id_r (requests ds))"
    and "rq \<in> set (requests ds)"
    and "served (id_r rq, c) = Some s"
  shows "(\<exists>ep latency. py_index (endpoints ds) (endpoint rq) = Inr ep \<and>
            (c, latency) \<in> set (connections ep) \<and> latency < Ld ep) \<and>
         (case cached (c, video rq) of
            None \<Rightarrow> zero_constr s \<in> set (constrs m) \<and> (\<forall>sol. feasible m sol \<longrightarrow> sol s = 0)
          | Some y \<Rightarrow> 0 \<le> video rq \<and> video rq < int (length (video_sizes ds)) \<and>
                      video_sizes ds ! nat (video rq) \<le> ds_X ds \<and>
                      (\<forall>sol. feasible m sol \<longrightarrow> sol s \<le> sol y))"
proof -
  from build_model_served(6) [OF assms(1,4)] obtain rq' where
    "rq' \<in> set (requests ds)" "id_r rq' = id_r rq"
    and e: "served_entry (endpoints ds) cached m (objective m) rq' c s" by blast
  with assms(2,3) have "rq' = rq" by (metis same_id)
  with e have e: "served_entry (endpoints ds) cached m (objective m) rq c s" by simp
  then have conn: "\<exists>ep latency. py_index (endpoints ds) (endpoint rq) = Inr ep \<and>
            (c, latency) \<in> set (connections ep) \<and> latency < Ld ep"
    by (auto simp: served_entry_def)
  have e0: "eval_expr sol [] = 0" for sol by (simp add: eval_expr_def)
  have e1: "eval_expr sol [(1, x)] = sol x" for sol x by (simp add: eval_expr_def)
  show ?thesis
  proof (cases "cached (c, video rq)")
    case None
    with e have z: "zero_constr s \<in> set (constrs m)" by (auto simp: served_entry_def)
    have "sol s = 0" if "feasible m sol" for sol
      using feasible_constr [OF that z] by (simp add: satisfies_def zero_constr_def e0 e1)
    with None z conn show ?thesis by simp
  next
    case (Some y)
    with e have l: "link_constr (id_r rq) c s y \<in> set (constrs m)"
      by (auto simp: served_entry_def)
    have le: "sol s \<le> sol y" if "feasible m sol" for sol
      using feasible_constr [OF that l] by (simp add: satisfies_def link_constr_def e1)
    from Some have "(c, video rq) \<in> dom cached" by auto
    then have "0 \<le> video rq \<and> video rq < int (length (video_sizes ds)) \<and>
                      video_sizes ds ! nat (video rq) \<le> ds_X ds"
      unfolding build_model_cached(2) [OF assms(1)] by simp
    with Some le conn show ?thesis by simp
  qed
qed

theorem served_var_needs_connection_not_cached_var_witness:
  "build_model example_ds =
     Inr (model_of example_ds, cached_of example_ds, served_of example_ds) \<and>
   distinct (map id_r (requests example_ds)) \<and>
   requests example_ds ! 1 \<in> set (requests example_ds) \<and>
   served_of example_ds (id_r (requests example_ds ! 1), 0) = Some 3 \<and>
   cached_of example_ds (0, video (requests example_ds ! 1)) = None \<and>
   feasible (model_of example_ds) example_sol \<and>
   zero_constr 3 \<in> set (constrs (model_of example_ds)) \<and> example_sol 3 = 0"
proof -
  have h1: "build_model example_ds =
              Inr (model_of example_ds, cached_of example_ds, served_of example_ds)"
    by (rule example_ds_built)
  have h2: "distinct (map id_r (requests example_ds))" by code_simp
  have h3: "requests example_ds ! 1 \<in> set (requests example_ds)" by code_simp
  have h4: "served_of example_ds (id_r (requests example_ds ! 1), 0) = Some 3" by code_simp
  have h5: "cached_of example_ds (0, video (requests example_ds ! 1)) = None" by code_simp
  have h6: "feasible (model_of example_ds) example_sol" by code_simp
  from served_var_needs_connection_not_cached_var [OF h1 h2 h3 h4]
  have "zero_constr 3 \<in> set (constrs (model_of example_ds)) \<and>
        (\<forall>sol. feasible (model_of example_ds) sol \<longrightarrow> sol 3 = 0)"
    unfolding h5 by simp
  with h6 have "zero_constr 3 \<in> set (constrs (model_of example_ds)) \<and> example_sol 3 = 0"
    by blast
  with h1 h2 h3 h4 h5 h6 show ?thesis by blast
qed

text \<open>
  C2 as stated fails: in the example dataset request 1 asks for video 1, whose size 20
  exceeds the capacity 10, so that \<open>cached[0, 1]\<close> does not exist; the variable
  \<open>served[1, 0]\<close> is created all the same.
\<close>

theorem served_var_without_cached_var_counterexample:
  "well_formed example_ds \<and>
   build_model example_ds = Inr (model_of example_ds, cached_of example_ds, served_of example_ds) \<and>
   id_r (requests example_ds ! 1) = 1 \<and> video (requests example_ds ! 1) = 1 \<and>
   served_of example_ds (1, 0) = Some 3 \<and>
   vars (model_of example_ds) ! 3 = served_name 1 0 \<and>
   cached_of example_ds (0, 1) = None \<and>
   ds_X example_ds < video_sizes example_ds ! 1"
proof -
  have "id_r (requests example_ds ! 1) = 1 \<and> video (requests example_ds ! 1) = 1 \<and>
   served_of example_ds (1, 0) = Some 3 \<and>
   vars (model_of example_ds) ! 3 = served_name 1 0 \<and>
   cached_of example_ds (0, 1) = None \<and>
   ds_X example_ds < video_sizes example_ds ! 1" by code_simp
  with well_formed_example_ds example_ds_built show ?thesis by blast
qed





text \<open>
  C5. For every request with at least one \<open>served[r, c]\<close> variable the model contains
  the constraint that the sum of all its served variables (those of the caches connected
  to its endpoint) is at most 1, so that in any solution at most one cache serves the
  request; for a request with no served variable no such constraint is generated.
\<close>

theorem assignment_constraint_per_request:
  assumes "build_model ds = Inr (m, cached, served)"
    and "distinct (map id_r (requests ds))"
    and "rq \<in> set (requests ds)"
  shows "\<exists>ep. py_index (endpoints ds) (endpoint rq) = Inr ep \<and>
           (let xs = vars_for_req served (id_r rq) (map fst (connections ep))
            in set xs = {s. \<exists>c. served (id_r rq, c) = Some s} \<and>
               (if \<exists>c. served (id_r rq, c) \<noteq> None
                then assign_constr (id_r rq) xs \<in> set (constrs m) \<and>
                     (\<forall>sol. feasible m sol \<longrightarrow>
                        (\<forall>c1 c2 s1 s2. served (id_r rq, c1) = Some s1 \<and> sol s1 = 1 \<and>
                                       served (id_r rq, c2) = Some s2 \<and> sol s2 = 1 \<longrightarrow> c1 = c2))
                else \<forall>k\<in>set (constrs m). cname k \<noteq> assign_name (id_r rq)))"
proof -
  from build_model_endpoints [OF assms(1,3)] obtain ep where
    ep: "py_index (endpoints ds) (endpoint rq) = Inr ep" by blast
  define xs where "xs = vars_for_req served (id_r rq) (map fst (connections ep))"
  have keys: "c \<in> fst ` set (connections ep)" if "served (id_r rq, c) = Some s" for c s
  proof -
    from build_model_served(6) [OF assms(1) that] obtain rq' where
      "rq' \<in> set (requests ds)" "id_r rq' = id_r rq"
      and e: "served_entry (endpoints ds) cached m (objective m) rq' c s" by blast
    with assms(2,3) have "rq' = rq" by (metis same_id)
    with e ep obtain l where "(c, l) \<in> set (connections ep)"
      by (auto simp: served_entry_def)
    then show ?thesis by force
  qed
  have set_xs: "set xs = {s. \<exists>c. served (id_r rq, c) = Some s}"
    unfolding xs_def set_vars_for_req using keys by auto
  have aof: "assign_of (endpoints ds) served rq = (if xs \<noteq> [] then [assign_constr (id_r rq) xs] else [])"
    by (simp add: assign_of_def ep xs_def)
  show ?thesis
  proof (cases "\<exists>c. served (id_r rq, c) \<noteq> None")
    case True
    with set_xs have ne: "xs \<noteq> []" by auto
    with aof assms(3) have "assign_constr (id_r rq) xs
        \<in> set (concat (map (assign_of (endpoints ds) served) (requests ds)))"
      by (auto intro!: bexI [of _ rq])
    with build_model_assign(1) [OF assms(1)]
    have mem: "assign_constr (id_r rq) xs \<in> set (constrs m)" by blast
    have one: "c1 = c2"
      if f: "feasible m sol" and s1: "served (id_r rq, c1) = Some s1" "sol s1 = 1"
        and s2: "served (id_r rq, c2) = Some s2" "sol s2 = 1" for sol c1 c2 s1 s2
    proof (rule ccontr)
      assume "c1 \<noteq> c2"
      have inj: "\<And>a b a' b'. served_name a b = served_name a' b' \<Longrightarrow> a = a' \<and> b = b'" by simp
      have "s1 \<noteq> s2"
      proof
        assume "s1 = s2"
        with var_inv_inj [OF build_model_served(1) [OF assms(1)] s1(1) _ inj] s2(1)
        have "(id_r rq, c1) = (id_r rq, c2)" by blast
        with \<open>c1 \<noteq> c2\<close> show False by simp
      qed
      moreover have "s1 \<in> set xs" "s2 \<in> set xs" using s1 s2 set_xs by auto
      moreover have "\<forall>x\<in>set xs. 0 \<le> sol x"
      proof
        fix x assume "x \<in> set xs"
        with set_xs obtain c where "served (id_r rq, c) = Some x" by auto
        with build_model_served(1) [OF assms(1)] have "x < length (vars m)"
          by (simp add: var_inv_def)
        from feasible_binary [OF f this] show "0 \<le> sol x" by auto
      qed
      ultimately have "sol s1 + sol s2 \<le> sum_list (map sol xs)"
        by (intro sum_list_two_members) auto
      moreover have "eval_expr sol [] = 0" by (simp add: eval_expr_def)
      with feasible_constr [OF f mem] have "sum_list (map sol xs) \<le> 1"
        by (simp add: satisfies_def assign_constr_def eval_assign)
      ultimately show False using s1(2) s2(2) by simp
    qed
    from one have "\<forall>sol. feasible m sol \<longrightarrow>
                        (\<forall>c1 c2 s1 s2. served (id_r rq, c1) = Some s1 \<and> sol s1 = 1 \<and>
                                       served (id_r rq, c2) = Some s2 \<and> sol s2 = 1 \<longrightarrow> c1 = c2)"
      by blast
    with set_xs mem True have "set xs = {s. \<exists>c. served (id_r rq, c) = Some s} \<and>
               (if \<exists>c. served (id_r rq, c) \<noteq> None
                then assign_constr (id_r rq) xs \<in> set (constrs m) \<and>
                     (\<forall>sol. feasible m sol \<longrightarrow>
                        (\<forall>c1 c2 s1 s2. served (id_r rq, c1) = Some s1 \<and> sol s1 = 1 \<and>
                                       served (id_r rq, c2) = Some s2 \<and> sol s2 = 1 \<longrightarrow> c1 = c2))
                else \<forall>k\<in>set (constrs m). cname k \<noteq> assign_name (id_r rq))"
      by simp
    with ep show ?thesis unfolding xs_def Let_def by blast
  next
    case False
    with set_xs have e: "xs = []" by auto
    have "cname k \<noteq> assign_name (id_r rq)" if k: "k \<in> set (constrs m)" for k
    proof
      assume n: "cname k = assign_name (id_r rq)"
      from build_model_assign(2) [OF assms(1) k n] obtain rq' where
        rq': "rq' \<in> set (requests ds)" "k \<in> set (assign_of (endpoints ds) served rq')" by auto
      then have "cname k = assign_name (id_r rq')"
        by (auto simp: assign_of_def Let_def assign_constr_def split: sum.splits if_splits)
      with n have "id_r rq' = id_r rq" by simp
      with rq' assms(2,3) have "rq' = rq" by (metis same_id)
      with rq' aof e show False by simp
    qed
    with set_xs False have "set xs = {s. \<exists>c. served (id_r rq, c) = Some s} \<and>
               (if \<exists>c. served (id_r rq, c) \<noteq> None
                then assign_constr (id_r rq) xs \<in> set (constrs m) \<and>
                     (\<forall>sol. feasible m sol \<longrightarrow>
                        (\<forall>c1 c2 s1 s2. served (id_r rq, c1) = Some s1 \<and> sol s1 = 1 \<and>
                                       served (id_r rq, c2) = Some s2 \<and> sol s2 = 1 \<longrightarrow> c1 = c2))
                else \<forall>k\<in>set (constrs m). cname k \<noteq> assign_name (id_r rq))"
      by simp
    with ep show ?thesis unfolding xs_def Let_def by blast
  qed
qed

theorem assignment_constraint_per_request_witness:
  "build_model example_ds =
     Inr (model_of example_ds, cached_of example_ds, served_of example_ds) \<and>
   distinct (map id_r (requests example_ds)) \<and>
   requests example_ds ! 0 \<in> set (requests example_ds) \<and>
   served_of example_ds (id_r (requests example_ds ! 0), 0) = Some 2 \<and>
   assign_constr (id_r (requests example_ds ! 0)) [2] \<in> set (constrs (model_of example_ds)) \<and>
   feasible (model_of example_ds) example_sol \<and> example_sol 2 = 1 \<and>
   build_model example_slow =
     Inr (model_of example_slow, cached_of example_slow, served_of example_slow) \<and>
   distinct (map id_r (requests example_slow)) \<and>
   requests example_slow ! 0 \<in> set (requests example_slow) \<and>
   \<not> (\<exists>c. served_of example_slow (id_r (requests example_slow ! 0), c) \<noteq> None) \<and>
   assign_name (id_r (requests example_slow ! 0))
     \<notin> cname ` set (constrs (model_of example_slow))"
proof -
  have a1: "build_model example_ds =
              Inr (model_of example_ds, cached_of example_ds, served_of example_ds)"
    by (rule example_ds_built)
  have a2: "distinct (map id_r (requests example_ds))" by code_simp
  have a3: "requests example_ds ! 0 \<in> set (requests example_ds)" by code_simp
  have a4: "served_of example_ds (id_r (requests example_ds ! 0), 0) = Some 2" by code_simp
  have a5: "py_index (endpoints example_ds) (endpoint (requests example_ds ! 0)) =
              Inr (endpoints example_ds ! 0)" by code_simp
  have a6: "vars_for_req (served_of example_ds) (id_r (requests example_ds ! 0))
              (map fst (connections (endpoints example_ds ! 0))) = [2]" by code_simp
  have a7: "feasible (model_of example_ds) example_sol" by code_simp
  have a8: "example_sol 2 = 1" by code_simp
  from a4 have a9: "\<exists>c. served_of example_ds (id_r (requests example_ds ! 0), c) \<noteq> None"
    by auto
  from assignment_constraint_per_request [OF a1 a2 a3] a5 a6 a9
  have r1: "assign_constr (id_r (requests example_ds ! 0)) [2] \<in> set (constrs (model_of example_ds))"
    by (auto simp: Let_def)
  have b1: "build_model example_slow =
              Inr (model_of example_slow, cached_of example_slow, served_of example_slow)"
    by (rule example_slow_built)
  have b2: "distinct (map id_r (requests example_slow))" by code_simp
  have b3: "requests example_slow ! 0 \<in> set (requests example_slow)" by code_simp
  have b5: "py_index (endpoints example_slow) (endpoint (requests example_slow ! 0)) =
              Inr (endpoints example_slow ! 0)" by code_simp
  have b6: "vars_for_req (served_of example_slow) (id_r (requests example_slow ! 0))
              (map fst (connections (endpoints example_slow ! 0))) = []" by code_simp
  from assignment_constraint_per_request [OF b1 b2 b3] b5 b6
  have b9: "\<not> (\<exists>c. served_of example_slow (id_r (requests example_slow ! 0), c) \<noteq> None)"
    by (auto simp: Let_def)
  with assignment_constraint_per_request [OF b1 b2 b3]
  have r2: "assign_name (id_r (requests example_slow ! 0))
              \<notin> cname ` set (constrs (model_of example_slow))"
    by (auto simp: Let_def)
  from a1 a2 a3 a4 r1 a7 a8 b1 b2 b3 b9 r2 show ?thesis by blast
qed

text \<open>
  C6, as the code has it. In a well-formed dataset the objective coefficient of every
  \<open>served[r, c]\<close> variable is never negative, and it is strictly positive exactly when
  the demand count of the request is positive: a request with demand 0 still gets its
  served variables, with coefficient 0.
\<close>

theorem served_coefficient_positive_iff_demand_positive:
  assumes "well_formed ds"
    and "build_model ds = Inr (m, cached, served)"
    and "rq \<in> set (requests ds)"
    and "served (id_r rq, c) = Some s"
  shows "\<exists>k. (k, s) \<in> set (objective m) \<and> (\<forall>k'. (k', s) \<in> set (objective m) \<longrightarrow> k' = k) \<and>
             0 \<le> k \<and> (0 < k \<longleftrightarrow> 0 < count rq)"
proof -
  from build_model_served(6) [OF assms(2,4)] obtain rq' where
    "rq' \<in> set (requests ds)" "id_r rq' = id_r rq"
    and e: "served_entry (endpoints ds) cached m (objective m) rq' c s" by blast
  with well_formed_ids [OF assms(1)] assms(3) have "rq' = rq" by (metis same_id)
  with e have "served_entry (endpoints ds) cached m (objective m) rq c s" by simp
  then obtain ep :: endpoint_data and latency where lt: "latency < Ld ep"
    and k: "((Ld ep - latency) * count rq, s) \<in> set (objective m)"
    by (auto simp: served_entry_def)
  define k0 where "k0 = (Ld ep - latency) * count rq"
  from assms(1,3) have cnt: "0 \<le> count rq" by (simp add: well_formed_def list_all_iff)
  have u: "\<forall>k'. (k', s) \<in> set (objective m) \<longrightarrow> k' = k0"
  proof (intro allI impI)
    fix k'
    assume "(k', s) \<in> set (objective m)"
    from same_var [OF build_model_served(4) [OF assms(2)] this k]
    show "k' = k0" by (simp add: k0_def)
  qed
  from lt cnt have "0 \<le> k0" by (simp add: k0_def)
  moreover from lt have "0 < k0 \<longleftrightarrow> 0 < count rq"
    by (simp add: k0_def zero_less_mult_iff)
  ultimately show ?thesis using k u unfolding k0_def by blast
qed

theorem served_coefficient_positive_iff_demand_positive_witness:
  "well_formed example_ds \<and>
   build_model example_ds =
     Inr (model_of example_ds, cached_of example_ds, served_of example_ds) \<and>
   requests example_ds ! 0 \<in> set (requests example_ds) \<and>
   served_of example_ds (id_r (requests example_ds ! 0), 0) = Some 2 \<and>
   (\<exists>k. (k, 2) \<in> set (objective (model_of example_ds)) \<and>
        (\<forall>k'. (k', 2) \<in> set (objective (model_of example_ds)) \<longrightarrow> k' = k) \<and>
        0 \<le> k \<and> (0 < k \<longleftrightarrow> 0 < count (requests example_ds ! 0)))"
proof -
  have h1: "build_model example_ds =
              Inr (model_of example_ds, cached_of example_ds, served_of example_ds)"
    by (rule example_ds_built)
  have h3: "requests example_ds ! 0 \<in> set (requests example_ds)" by code_simp
  have h4: "served_of example_ds (id_r (requests example_ds ! 0), 0) = Some 2" by code_simp
  from served_coefficient_positive_iff_demand_positive [OF well_formed_example_ds h1 h3 h4]
    well_formed_example_ds h1 h3 h4
  show ?thesis by blast
qed

text \<open>
  C6 as stated fails: request 1 of the example dataset has demand 0 (a non-negative
  weight), its variable \<open>served[1, 0]\<close> is variable 3 of the model, and the objective
  gives it the coefficient 0.
\<close>

theorem served_coefficient_zero_counterexample:
  "well_formed example_ds \<and>
   build_model example_ds = Inr (model_of example_ds, cached_of example_ds, served_of example_ds) \<and>
   served_of example_ds (1, 0) = Some 3 \<and>
   vars (model_of example_ds) ! 3 = served_name 1 0 \<and>
   objective (model_of example_ds) = [(270, 2), (0, 3)]"
proof -
  have "served_of example_ds (1, 0) = Some 3 \<and>
   vars (model_of example_ds) ! 3 = served_name 1 0 \<and>
   objective (model_of example_ds) = [(270, 2), (0, 3)]" by code_simp
  with well_formed_example_ds example_ds_built show ?thesis by blast
qed

text \<open>
  C7. From the solved values generate_output lists, for each cache that stores at least
  one video, the identifiers of its stored videos in ascending order, a video being
  stored when its variable exists and its value exceeds 0.5; a cache without stored
  video has no entry; the first line of the file is the number of caches with an entry.
\<close>

theorem generate_output_lists_stored_videos:
  "cache_content C V cached_vars sol =
     map (\<lambda>e. (fst e, map str_int (snd e))) (placement C V cached_vars sol) \<and>
   sorted_wrt (<) (map fst (placement C V cached_vars sol)) \<and>
   set (map fst (placement C V cached_vars sol)) =
     {c. 0 \<le> c \<and> c < C \<and>
         (\<exists>v y. 0 \<le> v \<and> v < V \<and> cached_vars (c, v) = Some y \<and> sol y > 0.5)} \<and>
   (\<forall>e\<in>set (placement C V cached_vars sol).
      sorted_wrt (<) (snd e) \<and>
      set (snd e) =
        {v. 0 \<le> v \<and> v < V \<and> (\<exists>y. cached_vars (fst e, v) = Some y \<and> sol y > 0.5)}) \<and>
   generate_output C V cached_vars sol =
     str_int (int (card {c. 0 \<le> c \<and> c < C \<and>
         (\<exists>v y. 0 \<le> v \<and> v < V \<and> cached_vars (c, v) = Some y \<and> sol y > 0.5)})) @
     [CHR 0x0A] @ concat (map output_line (cache_content C V cached_vars sol))"
proof -
  let ?P = "placement C V cached_vars sol"
  let ?S = "{c. 0 \<le> c \<and> c < C \<and>
         (\<exists>v y. 0 \<le> v \<and> v < V \<and> cached_vars (c, v) = Some y \<and> sol y > 0.5)}"
  have s: "sorted_wrt (<) (map fst ?P)"
    unfolding map_fst_placement by (intro sorted_wrt_filter sorted_py_range)
  have st: "set (map fst ?P) = ?S"
    unfolding map_fst_placement by (auto simp: set_py_range stored_nonempty_iff)
  from s have "distinct (map fst ?P)"
    by (simp add: strict_sorted_iff)
  then have "card (set (map fst ?P)) = length (map fst ?P)" by (rule distinct_card)
  with st have len: "length ?P = card ?S" by simp
  have ent: "\<forall>e\<in>set ?P. sorted_wrt (<) (snd e) \<and>
      set (snd e) =
        {v. 0 \<le> v \<and> v < V \<and> (\<exists>y. cached_vars (fst e, v) = Some y \<and> sol y > 0.5)}"
    using placement_entry [of _ C V cached_vars sol] stored_videos_sorted set_stored_videos
    by metis
  have "generate_output C V cached_vars sol =
     str_int (int (card ?S)) @ [CHR 0x0A] @
     concat (map output_line (cache_content C V cached_vars sol))"
    unfolding generate_output_def Let_def len [symmetric] by (simp add: cache_content_eq)
  with cache_content_eq s st ent show ?thesis by blast
qed

theorem generate_output_lists_stored_videos_witness:
  "(0, [0]) \<in> set (placement 2 2 (cached_of example_ds) example_sol) \<and>
   sorted_wrt (<) (snd (0 :: int, [0 :: int])) \<and>
   set (snd (0 :: int, [0 :: int])) =
     {v. 0 \<le> v \<and> v < 2 \<and>
         (\<exists>y. cached_of example_ds (fst (0 :: int, [0 :: int]), v) = Some y \<and> example_sol y > 0.5)} \<and>
   cache_content 2 2 (cached_of example_ds) example_sol = [(0, [''0'']), (1, [''0''])] \<and>
   generate_output 2 2 (cached_of example_ds) example_sol =
     ''2'' @ [CHR 0x0A] @ ''0 0'' @ [CHR 0x0A] @ ''1 0'' @ [CHR 0x0A]"
proof -
  have h: "(0, [0]) \<in> set (placement 2 2 (cached_of example_ds) example_sol)" by code_simp
  have c: "cache_content 2 2 (cached_of example_ds) example_sol = [(0, [''0'']), (1, [''0''])]"
    by code_simp
  have g: "generate_output 2 2 (cached_of example_ds) example_sol =
     ''2'' @ [CHR 0x0A] @ ''0 0'' @ [CHR 0x0A] @ ''1 0'' @ [CHR 0x0A]" by code_simp
  from generate_output_lists_stored_videos [of 2 2 "cached_of example_ds" example_sol]
  have "\<forall>e\<in>set (placement 2 2 (cached_of example_ds) example_sol).
      sorted_wrt (<) (snd e) \<and>
      set (snd e) =
        {v. 0 \<le> v \<and> v < 2 \<and> (\<exists>y. cached_of example_ds (fst e, v) = Some y \<and> example_sol y > 0.5)}"
    by blast
  with h have "sorted_wrt (<) (snd (0 :: int, [0 :: int])) \<and>
   set (snd (0 :: int, [0 :: int])) =
     {v. 0 \<le> v \<and> v < 2 \<and>
         (\<exists>y. cached_of example_ds (fst (0 :: int, [0 :: int]), v) = Some y \<and> example_sol y > 0.5)}"
    by blast
  with h c g show ?thesis by blast
qed

text \<open>
  C8, as the code has it. read_input has no error of its own and validates nothing. When
  it succeeds it has read the first \<open>n\<close> lines, those the header and the endpoints
  announce: the same file cut short to fewer than \<open>n\<close> lines fails with IndexError,
  the same file with more lines gives the same dataset (the surplus is ignored), and the
  same file with any other declared cache count gives the same dataset but for that
  count, so that no cache index is compared with it. A failure is the Python exception,
  with nothing recovered.
\<close>

theorem read_input_reads_lines_by_position:
  assumes "read_input_at lines = Inr (ds, n)"
  shows "read_input lines = Inr ds \<and> 2 \<le> n \<and> n \<le> length lines \<and>
         (\<forall>j<n. read_input (take j lines) = Inl IndexError) \<and>
         (\<forall>extra. read_input (lines @ extra) = Inr ds) \<and>
         (\<forall>header c'.
            map_int (py_split header) = Inr [ds_V ds, ds_E ds, ds_R ds, c', ds_X ds] \<longrightarrow>
            read_input (header # tl lines) = Inr (ds\<lparr>ds_C := c'\<rparr>))"
proof -
  have len: "n \<le> length lines" by (rule read_input_at_length [OF assms])
  have two: "2 \<le> n" by (rule read_input_at_agree(2) [OF assms, of lines]) simp
  have t: "\<forall>j<n. read_input (take j lines) = Inl IndexError"
    using read_input_at_take [OF assms] by (simp add: read_input_def)
  have a: "read_input (lines @ extra) = Inr ds" for extra
  proof -
    from len have "\<forall>i<n. int_fields (lines @ extra) i = int_fields lines i"
      by (simp add: int_fields_def nth_append)
    from read_input_at_agree(1) [OF assms this] show ?thesis by (simp add: read_input_def)
  qed
  have c: "read_input (header # tl lines) = Inr (ds\<lparr>ds_C := c'\<rparr>)"
    if "map_int (py_split header) = Inr [ds_V ds, ds_E ds, ds_R ds, c', ds_X ds]"
    for header c'
    using read_input_any_cache_count [OF assms that] by (simp add: read_input_def)
  have r: "read_input lines = Inr ds" using assms by (simp add: read_input_def)
  have a': "\<forall>extra. read_input (lines @ extra) = Inr ds"
    by (intro allI) (rule a)
  have c': "\<forall>header c'.
            map_int (py_split header) = Inr [ds_V ds, ds_E ds, ds_R ds, c', ds_X ds] \<longrightarrow>
            read_input (header # tl lines) = Inr (ds\<lparr>ds_C := c'\<rparr>)"
    by (intro allI impI) (rule c)
  show ?thesis by (intro conjI r two len t a' c')
qed

theorem read_input_reads_lines_by_position_witness:
  "read_input_at [''1 1 1 1 10'', ''5'', ''100 1'', ''7 10'', ''0 5 1'', ''9 9 9''] =
     Inr (\<lparr>ds_V = 1, ds_E = 1, ds_R = 1, ds_C = 1, ds_X = 10, video_sizes = [5],
           endpoints = [\<lparr>id_e = 0, Ld = 100, connections = [(7, 10)]\<rparr>],
           requests = [\<lparr>id_r = 0, video = 0, endpoint = 5, count = 1\<rparr>]\<rparr>, 5) \<and>
   (4 :: nat) < 5 \<and>
   read_input (take 4 [''1 1 1 1 10'', ''5'', ''100 1'', ''7 10'', ''0 5 1'', ''9 9 9'']) =
     Inl IndexError \<and>
   read_input ([''1 1 1 1 10'', ''5'', ''100 1'', ''7 10'', ''0 5 1'', ''9 9 9''] @ [''x'']) =
     Inr \<lparr>ds_V = 1, ds_E = 1, ds_R = 1, ds_C = 1, ds_X = 10, video_sizes = [5],
          endpoints = [\<lparr>id_e = 0, Ld = 100, connections = [(7, 10)]\<rparr>],
          requests = [\<lparr>id_r = 0, video = 0, endpoint = 5, count = 1\<rparr>]\<rparr> \<and>
   map_int (py_split ''1 1 1 8 10'') = Inr [1, 1, 1, 8, 10] \<and>
   read_input (''1 1 1 8 10'' # tl [''1 1 1 1 10'', ''5'', ''100 1'', ''7 10'', ''0 5 1'', ''9 9 9'']) =
     Inr \<lparr>ds_V = 1, ds_E = 1, ds_R = 1, ds_C = 8, ds_X = 10, video_sizes = [5],
          endpoints = [\<lparr>id_e = 0, Ld = 100, connections = [(7, 10)]\<rparr>],
          requests = [\<lparr>id_r = 0, video = 0, endpoint = 5, count = 1\<rparr>]\<rparr>"
proof -
  let ?lines = "[''1 1 1 1 10'', ''5'', ''100 1'', ''7 10'', ''0 5 1'', ''9 9 9'']"
  let ?ds = "\<lparr>ds_V = 1, ds_E = 1, ds_R = 1, ds_C = 1, ds_X = 10, video_sizes = [5],
           endpoints = [\<lparr>id_e = 0, Ld = 100, connections = [(7, 10)]\<rparr>],
           requests = [\<lparr>id_r = 0, video = 0, endpoint = 5, count = 1\<rparr>]\<rparr>"
  have h: "read_input_at ?lines = Inr (?ds, 5)" by code_simp
  have k: "map_int (py_split ''1 1 1 8 10'') = Inr [ds_V ?ds, ds_E ?ds, ds_R ?ds, 8, ds_X ?ds]"
    by code_simp
  note t = read_input_reads_lines_by_position [OF h]
  note t1 = t [THEN conjunct2, THEN conjunct2, THEN conjunct2, THEN conjunct1]
  note t2 = t [THEN conjunct2, THEN conjunct2, THEN conjunct2, THEN conjunct2, THEN conjunct1]
  note t3 = t [THEN conjunct2, THEN conjunct2, THEN conjunct2, THEN conjunct2, THEN conjunct2]
  have lt: "(4 :: nat) < 5" by simp
  from t1 [rule_format, OF lt] have f1: "read_input (take 4 ?lines) = Inl IndexError" .
  from t2 [rule_format, of "[''x'']"] have f2: "read_input (?lines @ [''x'']) = Inr ?ds" .
  have "?ds\<lparr>ds_C := 8\<rparr> =
          \<lparr>ds_V = 1, ds_E = 1, ds_R = 1, ds_C = 8, ds_X = 10, video_sizes = [5],
           endpoints = [\<lparr>id_e = 0, Ld = 100, connections = [(7, 10)]\<rparr>],
           requests = [\<lparr>id_r = 0, video = 0, endpoint = 5, count = 1\<rparr>]\<rparr>"
    by simp
  with t3 [rule_format, OF k]
  have f3: "read_input (''1 1 1 8 10'' # tl ?lines) =
     Inr \<lparr>ds_V = 1, ds_E = 1, ds_R = 1, ds_C = 8, ds_X = 10, video_sizes = [5],
          endpoints = [\<lparr>id_e = 0, Ld = 100, connections = [(7, 10)]\<rparr>],
          requests = [\<lparr>id_r = 0, video = 0, endpoint = 5, count = 1\<rparr>]\<rparr>"
    by (simp only:)
  have f4: "map_int (py_split ''1 1 1 8 10'') = Inr [1, 1, 1, 8, 10]" by code_simp
  show ?thesis by (intro conjI h lt f1 f2 f3 f4)
qed

text \<open>
  C8 as stated fails: this file declares one endpoint and one request and has a line
  too many, its connection names cache 7 of a single cache and its request endpoint 5
  of a single endpoint; read_input returns the dataset all the same.
\<close>

theorem read_input_accepts_malformed_counterexample:
  "read_input [''1 1 1 1 10'', ''5'', ''100 1'', ''7 10'', ''0 5 1'', ''9 9 9''] =
     Inr \<lparr>ds_V = 1, ds_E = 1, ds_R = 1, ds_C = 1, ds_X = 10, video_sizes = [5],
          endpoints = [\<lparr>id_e = 0, Ld = 100, connections = [(7, 10)]\<rparr>],
          requests = [\<lparr>id_r = 0, video = 0, endpoint = 5, count = 1\<rparr>]\<rparr>"
  by code_simp

text \<open>
  C9. Without the dataset argument, or when the named file does not exist, the process
  prints a diagnostic message and exits with code 1, and opens no file. When the
  dataset is read and the model built, the process exits with code 0 whether or not the
  solver returns a solution; without a solution no videos.out is written.
\<close>

theorem exit_codes_and_output_file:
  "(length argv < 2 \<longrightarrow> main argv fs optimize = ([Print Usage], 1)) \<and>
   (2 \<le> length argv \<and> fs (argv ! 1) = None \<longrightarrow>
      main argv fs optimize = ([Print (File_not_found (argv ! 1))], 1)) \<and>
   (2 \<le> length argv \<and> fs (argv ! 1) = Some lines \<and> read_input lines = Inr ds \<and>
    build_model ds = Inr (m, cached, served) \<longrightarrow>
      snd (main argv fs optimize) = 0 \<and>
      Open_read (argv ! 1) \<in> set (fst (main argv fs optimize)) \<and>
      (case optimize m of
         None \<Rightarrow>
           Print No_solution_found \<in> set (fst (main argv fs optimize)) \<and>
           \<not> (\<exists>c. Write_file ''videos.out'' c \<in> set (fst (main argv fs optimize)))
       | Some sol \<Rightarrow>
           Write_file ''videos.out'' (Text (generate_output (ds_C ds) (ds_V ds) cached sol))
             \<in> set (fst (main argv fs optimize))))"
proof (intro conjI impI)
  assume "length argv < 2"
  then show "main argv fs optimize = ([Print Usage], 1)" by (simp add: main_def)
next
  assume "2 \<le> length argv \<and> fs (argv ! 1) = None"
  then show "main argv fs optimize = ([Print (File_not_found (argv ! 1))], 1)"
    by (simp add: main_def)
next
  assume a: "2 \<le> length argv \<and> fs (argv ! 1) = Some lines \<and> read_input lines = Inr ds \<and>
    build_model ds = Inr (m, cached, served)"
  then obtain m3 where c: "build_caps ds = Inr (m3, cached, served)"
    and l: "assign_loop (endpoints ds) served (requests ds) m3 = Inr m"
    by (auto simp: build_model_def split: sum.splits)
  let ?ev = "[Print (Reading_dataset (argv ! 1)), Open_read (argv ! 1),
              Print (Dataset_loaded (ds_V ds) (ds_E ds) (ds_R ds) (ds_C ds) (ds_X ds))]"
  have r: "read_input_io fs (argv ! 1) = (?ev, Inr ds)"
    using a by (simp add: read_input_io_def)
  have n: "main argv fs optimize =
      (?ev @ [Print Adding_assignment_constraints, Print Creating_mps,
              Write_file ''videos.mps'' (Mps m), Print Solving_model,
              Print No_solution_found], 0)"
    if "optimize m = None"
    using a r c l that by (simp add: main_def solve_videos_def Let_def)
  have s: "main argv fs optimize =
      (?ev @ [Print Adding_assignment_constraints, Print Creating_mps,
              Write_file ''videos.mps'' (Mps m), Print Solving_model,
              Print (Optimal_solution (eval_expr sol (objective m))),
              Print Creating_out,
              Write_file ''videos.out'' (Text (generate_output (ds_C ds) (ds_V ds) cached sol)),
              Print Out_created], 0)"
    if "optimize m = Some sol" for sol
    using a r c l that by (simp add: main_def solve_videos_def Let_def)
  show "snd (main argv fs optimize) = 0"
    using n s by (cases "optimize m") simp_all
  show "Open_read (argv ! 1) \<in> set (fst (main argv fs optimize))"
    using n s by (cases "optimize m") simp_all
  show "case optimize m of
         None \<Rightarrow>
           Print No_solution_found \<in> set (fst (main argv fs optimize)) \<and>
           \<not> (\<exists>c. Write_file ''videos.out'' c \<in> set (fst (main argv fs optimize)))
       | Some sol \<Rightarrow>
           Write_file ''videos.out'' (Text (generate_output (ds_C ds) (ds_V ds) cached sol))
             \<in> set (fst (main argv fs optimize))"
    using n s by (cases "optimize m") simp_all
qed

theorem exit_codes_and_output_file_witness:
  "length [''videos.py''] < 2 \<and>
   main [''videos.py''] example_files (\<lambda>m. None) = ([Print Usage], 1) \<and>
   2 \<le> length [''videos.py'', ''x.in''] \<and>
   example_files ([''videos.py'', ''x.in''] ! 1) = None \<and>
   main [''videos.py'', ''x.in''] example_files (\<lambda>m. None) =
     ([Print (File_not_found ([''videos.py'', ''x.in''] ! 1))], 1) \<and>
   2 \<le> length [''videos.py'', ''d.in''] \<and>
   example_files ([''videos.py'', ''d.in''] ! 1) = Some example_lines \<and>
   read_input example_lines = Inr example_ds \<and>
   build_model example_ds =
     Inr (model_of example_ds, cached_of example_ds, served_of example_ds) \<and>
   snd (main [''videos.py'', ''d.in''] example_files (\<lambda>m. None)) = 0 \<and>
   \<not> (\<exists>c. Write_file ''videos.out'' c
          \<in> set (fst (main [''videos.py'', ''d.in''] example_files (\<lambda>m. None)))) \<and>
   snd (main [''videos.py'', ''d.in''] example_files (\<lambda>m. Some example_sol)) = 0 \<and>
   Write_file ''videos.out''
     (Text (generate_output (ds_C example_ds) (ds_V example_ds) (cached_of example_ds) example_sol))
     \<in> set (fst (main [''videos.py'', ''d.in''] example_files (\<lambda>m. Some example_sol)))"
proof -
  have a1: "length [''videos.py''] < 2" by simp
  have b1: "2 \<le> length [''videos.py'', ''x.in'']" by simp
  have b2: "example_files ([''videos.py'', ''x.in''] ! 1) = None"
    by (simp add: example_files_def)
  have c1: "2 \<le> length [''videos.py'', ''d.in'']" by simp
  have c2: "example_files ([''videos.py'', ''d.in''] ! 1) = Some example_lines"
    by (simp add: example_files_def)
  note c3 = read_example_lines
  note c4 = example_ds_built
  from exit_codes_and_output_file
         [where argv = "[''videos.py'']" and fs = example_files and optimize = "\<lambda>m. None"] a1
  have r1: "main [''videos.py''] example_files (\<lambda>m. None) = ([Print Usage], 1)"
    by blast
  from exit_codes_and_output_file
         [where argv = "[''videos.py'', ''x.in'']" and fs = example_files
            and optimize = "\<lambda>m. None"] b1 b2
  have r2: "main [''videos.py'', ''x.in''] example_files (\<lambda>m. None) =
     ([Print (File_not_found ([''videos.py'', ''x.in''] ! 1))], 1)"
    by blast
  from exit_codes_and_output_file
         [where argv = "[''videos.py'', ''d.in'']" and fs = example_files
            and optimize = "\<lambda>m. None" and lines = example_lines and ds = example_ds
            and m = "model_of example_ds" and cached = "cached_of example_ds"
            and served = "served_of example_ds"] c1 c2 c3 c4
  have r3: "snd (main [''videos.py'', ''d.in''] example_files (\<lambda>m. None)) = 0 \<and>
   \<not> (\<exists>c. Write_file ''videos.out'' c
          \<in> set (fst (main [''videos.py'', ''d.in''] example_files (\<lambda>m. None))))"
    by simp
  from exit_codes_and_output_file
         [where argv = "[''videos.py'', ''d.in'']" and fs = example_files
            and optimize = "\<lambda>m. Some example_sol" and lines = example_lines and ds = example_ds
            and m = "model_of example_ds" and cached = "cached_of example_ds"
            and served = "served_of example_ds"] c1 c2 c3 c4
  have r4: "snd (main [''videos.py'', ''d.in''] example_files (\<lambda>m. Some example_sol)) = 0 \<and>
   Write_file ''videos.out''
     (Text (generate_output (ds_C example_ds) (ds_V example_ds) (cached_of example_ds) example_sol))
     \<in> set (fst (main [''videos.py'', ''d.in''] example_files (\<lambda>m. Some example_sol)))"
    by simp
  from r3 have r3a: "snd (main [''videos.py'', ''d.in''] example_files (\<lambda>m. None)) = 0"
    and r3b: "\<not> (\<exists>c. Write_file ''videos.out'' c
          \<in> set (fst (main [''videos.py'', ''d.in''] example_files (\<lambda>m. None))))"
    by blast+
  from r4 have r4a: "snd (main [''videos.py'', ''d.in''] example_files (\<lambda>m. Some example_sol)) = 0"
    and r4b: "Write_file ''videos.out''
     (Text (generate_output (ds_C example_ds) (ds_V example_ds) (cached_of example_ds) example_sol))
     \<in> set (fst (main [''videos.py'', ''d.in''] example_files (\<lambda>m. Some example_sol)))"
    by blast+
  show ?thesis by (intro conjI a1 r1 b1 b2 r2 c1 c2 c3 c4 r3a r3b r4a r4b)
qed



end
